theory Spec2Isabelle
  imports Main
begin

section \<open>Atomo: a nano-style line editor (src/atomo.py)\<close>

text \<open>
  A shallow embedding of the class \<open>AtomoEditor\<close> of \<open>src/atomo.py\<close>: the line buffer,
  the cursor, the scroll offsets, the search, the file load and save, and the key
  dispatch of \<open>run\<close>. Python integers are \<open>int\<close>; a Python \<open>str\<close> is a \<open>string\<close>, each
  \<open>char\<close> standing for the code point of the same number (0..255). An uncaught
  exception (the only one the editing code can raise is \<open>IndexError\<close>) is the value
  \<open>None\<close> of an \<open>option\<close> result. What the terminal and the file system supply is passed
  in explicitly.
\<close>

subsection \<open>Python lists and strings\<close>

text \<open>\<open>xs[i]\<close>: a negative index counts from the end; out of range raises.\<close>

definition py_index :: "'a list \<Rightarrow> int \<Rightarrow> nat option" where
  "py_index xs i =
     (let n = int (length xs); j = (if i < 0 then i + n else i)
      in if 0 \<le> j \<and> j < n then Some (nat j) else None)"

text \<open>A slice bound, and the index of \<open>list.insert\<close>: clipped into \<open>0..len\<close>, never raising.\<close>

definition py_clip :: "nat \<Rightarrow> int \<Rightarrow> nat" where
  "py_clip n i = (if i < 0 then nat (max 0 (i + int n)) else min n (nat i))"

text \<open>\<open>s[:i]\<close> and \<open>s[i:]\<close>.\<close>

definition slice_to :: "'a list \<Rightarrow> int \<Rightarrow> 'a list" where
  "slice_to s i = take (py_clip (length s) i) s"

definition slice_from :: "'a list \<Rightarrow> int \<Rightarrow> 'a list" where
  "slice_from s i = drop (py_clip (length s) i) s"

text \<open>\<open>xs.insert(i, x)\<close> and \<open>xs.pop(i)\<close> (the list that is left).\<close>

definition py_insert :: "'a list \<Rightarrow> int \<Rightarrow> 'a \<Rightarrow> 'a list" where
  "py_insert xs i x = (let k = py_clip (length xs) i in take k xs @ x # drop k xs)"

definition py_pop :: "'a list \<Rightarrow> int \<Rightarrow> 'a list option" where
  "py_pop xs i =
     (case py_index xs i of
        None \<Rightarrow> None
      | Some j \<Rightarrow> Some (take j xs @ drop (Suc j) xs))"

text \<open>\<open>s.find(q)\<close>: the lowest index at which \<open>q\<close> starts in \<open>s\<close>, or \<open>-1\<close>.\<close>

fun py_find :: "string \<Rightarrow> string \<Rightarrow> int" where
  "py_find [] q = (if q = [] then 0 else - 1)"
| "py_find (c # s) q =
     (if take (length q) (c # s) = q then 0
      else (let r = py_find s q in if r = - 1 then - 1 else r + 1))"

text \<open>\<open>sep.join(xs)\<close>.\<close>

fun py_join :: "string \<Rightarrow> string list \<Rightarrow> string" where
  "py_join sep [] = []"
| "py_join sep [x] = x"
| "py_join sep (x # y # ys) = x @ sep @ py_join sep (y # ys)"

definition LF :: char where
  "LF = CHR 0x0A"

definition CR :: char where
  "CR = CHR 0x0D"

text \<open>
  The line boundaries of \<open>str.splitlines\<close> among the code points below 256: line feed,
  carriage return, vertical tab, form feed, the file, group and record separators, and
  NEL (0x85). The two boundaries beyond 255, U+2028 and U+2029, are not characters of
  this model.
\<close>

definition is_linebreak :: "char \<Rightarrow> bool" where
  "is_linebreak c =
     (c = LF \<or> c = CR \<or> c = CHR 0x0B \<or> c = CHR 0x0C \<or> c = CHR 0x1C \<or> c = CHR 0x1D
      \<or> c = CHR 0x1E \<or> c = CHR 0x85)"

text \<open>
  \<open>s.splitlines()\<close>, with the line read so far in \<open>cur\<close>: a boundary ends the line (CR LF
  is one boundary), and no empty line follows a final boundary.
\<close>

fun splitlines_from :: "string \<Rightarrow> string \<Rightarrow> string list" where
  "splitlines_from cur [] = (if cur = [] then [] else [cur])"
| "splitlines_from cur [c] = (if is_linebreak c then [cur] else [cur @ [c]])"
| "splitlines_from cur (c # d # cs) =
     (if c = CR \<and> d = LF then cur # splitlines_from [] cs
      else if is_linebreak c then cur # splitlines_from [] (d # cs)
      else splitlines_from (cur @ [c]) (d # cs))"

definition splitlines :: "string \<Rightarrow> string list" where
  "splitlines s = splitlines_from [] s"

text \<open>
  What \<open>f.read()\<close> returns for a file opened in text mode with the default \<open>newline\<close>:
  CR LF and a lone CR are read as LF.
\<close>

fun universal_newlines :: "string \<Rightarrow> string" where
  "universal_newlines [] = []"
| "universal_newlines [c] = (if c = CR then [LF] else [c])"
| "universal_newlines (c # d # cs) =
     (if c = CR \<and> d = LF then LF # universal_newlines cs
      else if c = CR then LF # universal_newlines (d # cs)
      else c # universal_newlines (d # cs))"

text \<open>\<open>s.strip()\<close>: the white space of \<open>str.isspace\<close> among the code points below 256.\<close>

definition py_isspace :: "char \<Rightarrow> bool" where
  "py_isspace c =
     (c = CHR 0x09 \<or> c = LF \<or> c = CHR 0x0B \<or> c = CHR 0x0C \<or> c = CR \<or> c = CHR 0x1C
      \<or> c = CHR 0x1D \<or> c = CHR 0x1E \<or> c = CHR 0x1F \<or> c = CHR 0x20 \<or> c = CHR 0x85
      \<or> c = CHR 0xA0)"

definition strip :: "string \<Rightarrow> string" where
  "strip s = rev (dropWhile py_isspace (rev (dropWhile py_isspace s)))"

text \<open>\<open>str(n)\<close> of a length, in decimal, as the f-strings of the messages print it.\<close>

fun str_nat :: "nat \<Rightarrow> string" where
  "str_nat n =
     (if n < 10 then [char_of (48 + n)]
      else str_nat (n div 10) @ [char_of (48 + n mod 10)])"

text \<open>The truth value of an \<open>Optional[str]\<close>: \<open>None\<close> and the empty string are false.\<close>

fun truthy :: "string option \<Rightarrow> bool" where
  "truthy None = False"
| "truthy (Some s) = (s \<noteq> [])"

subsection \<open>The editor, the terminal and the files\<close>

record editor =
  filename :: "string option"
  lines :: "string list"
  cursor_y :: int
  cursor_x :: int
  offset_y :: int
  offset_x :: int
  modified :: bool
  message :: string
  message_type :: string

text \<open>
  What the terminal supplies while one key is dispatched: the size of the screen
  (\<open>getmaxyx\<close>), the text a prompt reads (\<open>input_str\<close>: what \<open>getstr(...).decode\<close>
  returned, empty when it raised), and the keys \<open>getch\<close> returns to the loop of
  \<open>confirm_exit\<close>.
\<close>

record terminal =
  max_y :: int
  max_x :: int
  input_str :: string
  answers :: "int list"

text \<open>
  The file system: the text of each file that exists, and for each path the text of the
  exception that opening it for writing or reading it raises, if it raises. A write is
  modelled on a system whose line separator is LF, so that text mode writes the text as
  it is; a write that raises leaves the files as they were.
\<close>

record world =
  files :: "string \<Rightarrow> string option"
  write_error :: "string \<Rightarrow> string option"
  read_error :: "string \<Rightarrow> string option"

subsection \<open>Loading and saving\<close>

definition load_file :: "string \<Rightarrow> world \<Rightarrow> editor \<Rightarrow> bool \<times> editor" where
  "load_file fname w e =
     (case files w fname of
        Some content \<Rightarrow>
          (case read_error w fname of
             None \<Rightarrow>
               (let ls = splitlines (universal_newlines content);
                    ls' = (if ls = [] then [[]] else ls)
                in (True, e\<lparr>lines := ls',
                     message := ''Read '' @ str_nat (length ls') @ '' lines from '' @ fname,
                     message_type := ''success'',
                     filename := Some fname,
                     modified := False\<rparr>))
           | Some err \<Rightarrow>
               (False, e\<lparr>message := ''Error reading '' @ fname @ '': '' @ err,
                  message_type := ''error'',
                  lines := [[]]\<rparr>))
      | None \<Rightarrow>
          (True, e\<lparr>lines := [[]],
             message := ''New File: '' @ fname,
             message_type := ''info'',
             filename := Some fname,
             modified := False\<rparr>))"

definition file_text :: "string list \<Rightarrow> string" where
  "file_text ls =
     py_join [LF] ls @ (if ls \<noteq> [] \<and> last ls \<noteq> [] then [LF] else [])"

definition save_file :: "string option \<Rightarrow> world \<Rightarrow> editor \<Rightarrow> bool \<times> editor \<times> world" where
  "save_file fname w e =
     (let e1 = (if truthy fname then e\<lparr>filename := fname\<rparr> else e)
      in if \<not> truthy (filename e1) then (False, e1, w)
         else
           (let path = the (filename e1)
            in case write_error w path of
                 None \<Rightarrow>
                   (True,
                    e1\<lparr>modified := False,
                      message := ''Wrote '' @ str_nat (length (lines e1)) @ '' lines to '' @ path,
                      message_type := ''success''\<rparr>,
                    w\<lparr>files := (files w)(path \<mapsto> file_text (lines e1))\<rparr>)
               | Some err \<Rightarrow>
                   (False,
                    e1\<lparr>message := ''Error writing '' @ path @ '': '' @ err,
                      message_type := ''error''\<rparr>,
                    w)))"

text \<open>\<open>__init__\<close>: the fields, then the file named on the command line, if any.\<close>

definition init :: "string option \<Rightarrow> world \<Rightarrow> editor" where
  "init fname w =
     (let e0 = \<lparr>filename = fname, lines = [], cursor_y = 0, cursor_x = 0, offset_y = 0,
                offset_x = 0, modified = False, message = [], message_type = ''info''\<rparr>
      in if truthy fname then snd (load_file (the fname) w e0) else e0\<lparr>lines := [[]]\<rparr>)"

subsection \<open>Cursor and scrolling\<close>

definition get_dimensions :: "terminal \<Rightarrow> int \<times> int" where
  "get_dimensions t = (max_y t - 4, max_x t)"

definition adjust_scroll :: "terminal \<Rightarrow> editor \<Rightarrow> editor" where
  "adjust_scroll t e =
     (let (height, width) = get_dimensions t;
          e1 = (if cursor_y e < offset_y e then e\<lparr>offset_y := cursor_y e\<rparr>
                else if cursor_y e \<ge> offset_y e + height
                then e\<lparr>offset_y := cursor_y e - height + 1\<rparr>
                else e)
      in if cursor_x e1 < offset_x e1 then e1\<lparr>offset_x := cursor_x e1\<rparr>
         else if cursor_x e1 \<ge> offset_x e1 + width
         then e1\<lparr>offset_x := cursor_x e1 - width + 1\<rparr>
         else e1)"

definition move_cursor :: "terminal \<Rightarrow> int \<Rightarrow> int \<Rightarrow> editor \<Rightarrow> editor option" where
  "move_cursor t dy dx e =
     (let e1 = e\<lparr>message := []\<rparr>;
          e2 = e1\<lparr>cursor_y := max 0 (min (int (length (lines e1)) - 1) (cursor_y e1 + dy))\<rparr>
      in case py_index (lines e2) (cursor_y e2) of
           None \<Rightarrow> None
         | Some j \<Rightarrow>
             (let current_line = lines e2 ! j;
                  e3 = e2\<lparr>cursor_x :=
                         max 0 (min (int (length current_line)) (cursor_x e2 + dx))\<rparr>
              in Some (adjust_scroll t e3)))"

subsection \<open>Editing\<close>

definition insert_char :: "terminal \<Rightarrow> string \<Rightarrow> editor \<Rightarrow> editor option" where
  "insert_char t ch e =
     (case py_index (lines e) (cursor_y e) of
        None \<Rightarrow> None
      | Some j \<Rightarrow>
          (let line = lines e ! j;
               e1 = e\<lparr>lines := (lines e)
                      [j := slice_to line (cursor_x e) @ ch @ slice_from line (cursor_x e)]\<rparr>;
               e2 = e1\<lparr>cursor_x := cursor_x e1 + 1\<rparr>;
               e3 = e2\<lparr>modified := True\<rparr>;
               e4 = e3\<lparr>message := []\<rparr>
           in Some (adjust_scroll t e4)))"

text \<open>
  The same method in the commented copy of the program, \<open>src/atomo_commentato.py\<close>: the
  column advances by the length of the text, and the message is left as it is.
\<close>

definition insert_char_commentato :: "terminal \<Rightarrow> string \<Rightarrow> editor \<Rightarrow> editor option" where
  "insert_char_commentato t ch e =
     (case py_index (lines e) (cursor_y e) of
        None \<Rightarrow> None
      | Some j \<Rightarrow>
          (let line = lines e ! j;
               e1 = e\<lparr>lines := (lines e)
                      [j := slice_to line (cursor_x e) @ ch @ slice_from line (cursor_x e)]\<rparr>;
               e2 = e1\<lparr>cursor_x := cursor_x e1 + int (length ch)\<rparr>;
               e3 = e2\<lparr>modified := True\<rparr>
           in Some (adjust_scroll t e3)))"

definition delete_char :: "editor \<Rightarrow> editor option" where
  "delete_char e =
     (case py_index (lines e) (cursor_y e) of
        None \<Rightarrow> None
      | Some j \<Rightarrow>
          (let line = lines e ! j
           in if cursor_x e < int (length line) then
                Some (e\<lparr>lines := (lines e)
                          [j := slice_to line (cursor_x e) @ slice_from line (cursor_x e + 1)],
                        modified := True, message := []\<rparr>)
              else if cursor_y e < int (length (lines e)) - 1 then
                (case py_index (lines e) (cursor_y e + 1) of
                   None \<Rightarrow> None
                 | Some k \<Rightarrow>
                     (case py_pop ((lines e)[j := line @ lines e ! k]) (cursor_y e + 1) of
                        None \<Rightarrow> None
                      | Some ls \<Rightarrow> Some (e\<lparr>lines := ls, modified := True, message := []\<rparr>)))
              else Some (e\<lparr>message := []\<rparr>)))"

definition backspace :: "terminal \<Rightarrow> editor \<Rightarrow> editor option" where
  "backspace t e =
     (if cursor_x e > 0 then
        (case py_index (lines e) (cursor_y e) of
           None \<Rightarrow> None
         | Some j \<Rightarrow>
             (let line = lines e ! j
              in Some (adjust_scroll t
                   (e\<lparr>lines := (lines e)
                         [j := slice_to line (cursor_x e - 1) @ slice_from line (cursor_x e)],
                       cursor_x := cursor_x e - 1, modified := True, message := []\<rparr>))))
      else if cursor_y e > 0 then
        (case py_index (lines e) (cursor_y e - 1) of
           None \<Rightarrow> None
         | Some p \<Rightarrow>
             (let prev_line_len = int (length (lines e ! p))
              in case py_index (lines e) (cursor_y e) of
                   None \<Rightarrow> None
                 | Some j \<Rightarrow>
                     (case py_pop ((lines e)[p := lines e ! p @ lines e ! j]) (cursor_y e) of
                        None \<Rightarrow> None
                      | Some ls \<Rightarrow>
                          Some (adjust_scroll t
                            (e\<lparr>lines := ls, cursor_y := cursor_y e - 1,
                                cursor_x := prev_line_len, modified := True,
                                message := []\<rparr>)))))
      else Some (adjust_scroll t (e\<lparr>message := []\<rparr>)))"

definition insert_newline :: "terminal \<Rightarrow> editor \<Rightarrow> editor option" where
  "insert_newline t e =
     (case py_index (lines e) (cursor_y e) of
        None \<Rightarrow> None
      | Some j \<Rightarrow>
          (let line = lines e ! j;
               ls1 = (lines e)[j := slice_to line (cursor_x e)];
               ls2 = py_insert ls1 (cursor_y e + 1) (slice_from line (cursor_x e))
           in Some (adjust_scroll t
                (e\<lparr>lines := ls2, cursor_y := cursor_y e + 1, cursor_x := 0,
                    modified := True, message := []\<rparr>))))"

subsection \<open>Search\<close>

text \<open>
  One of the two \<open>for\<close> loops of \<open>search\<close> over the rows \<open>ys\<close>: the first row in which the
  query is found, with the position \<open>find\<close> returns there.
\<close>

datatype scan = Hit int int | NoHit | Raises

fun search_rows :: "string list \<Rightarrow> string \<Rightarrow> int list \<Rightarrow> scan" where
  "search_rows ls query [] = NoHit"
| "search_rows ls query (y # ys) =
     (case py_index ls y of
        None \<Rightarrow> Raises
      | Some j \<Rightarrow>
          (let pos = py_find (ls ! j) query
           in if pos \<noteq> - 1 then Hit y pos else search_rows ls query ys))"

definition found_msg :: "string \<Rightarrow> string" where
  "found_msg query = ''Found '' @ [CHR 0x27] @ query @ [CHR 0x27]"

definition wrapped_msg :: "string \<Rightarrow> string" where
  "wrapped_msg query = ''Found '' @ [CHR 0x27] @ query @ [CHR 0x27] @ '' (wrapped)''"

definition not_found_msg :: "string \<Rightarrow> string" where
  "not_found_msg query = [CHR 0x27] @ query @ [CHR 0x27] @ '' not found''"

definition search :: "terminal \<Rightarrow> string \<Rightarrow> editor \<Rightarrow> editor option" where
  "search t query e =
     (if query = [] then Some e
      else
        (let start_y = cursor_y e; start_x = cursor_x e + 1
         in case py_index (lines e) start_y of
              None \<Rightarrow> None
            | Some j \<Rightarrow>
                (let pos = py_find (slice_from (lines e ! j) start_x) query
                 in if pos \<noteq> - 1 then
                      Some (adjust_scroll t
                        (e\<lparr>cursor_x := start_x + pos, message := found_msg query,
                            message_type := ''success''\<rparr>))
                    else
                      (case search_rows (lines e) query
                              [start_y + 1 .. int (length (lines e)) - 1] of
                         Raises \<Rightarrow> None
                       | Hit y p \<Rightarrow>
                           Some (adjust_scroll t
                             (e\<lparr>cursor_y := y, cursor_x := p, message := found_msg query,
                                 message_type := ''success''\<rparr>))
                       | NoHit \<Rightarrow>
                           (case search_rows (lines e) query [0 .. start_y - 1] of
                              Raises \<Rightarrow> None
                            | Hit y p \<Rightarrow>
                                Some (adjust_scroll t
                                  (e\<lparr>cursor_y := y, cursor_x := p,
                                      message := wrapped_msg query,
                                      message_type := ''success''\<rparr>))
                            | NoHit \<Rightarrow>
                                Some (e\<lparr>message := not_found_msg query,
                                        message_type := ''error''\<rparr>))))))"

subsection \<open>Prompts and the exit confirmation\<close>

definition prompt_save_filename :: "terminal \<Rightarrow> editor \<Rightarrow> string option" where
  "prompt_save_filename t e =
     (if strip (input_str t) \<noteq> [] then Some (strip (input_str t)) else filename e)"

definition prompt_search :: "terminal \<Rightarrow> string option" where
  "prompt_search t =
     (if strip (input_str t) \<noteq> [] then Some (strip (input_str t)) else None)"

text \<open>
  The \<open>while True\<close> loop of \<open>confirm_exit\<close> over the keys \<open>getch\<close> returns: \<open>y\<close>, \<open>Y\<close> save
  and leave if the save succeeded; \<open>n\<close>, \<open>N\<close> leave; \<open>c\<close>, \<open>C\<close>, ESC stay; any other key is
  read over. \<open>None\<close>: the keys ran out, and \<open>getch\<close> is still waiting.
\<close>

fun confirm_exit_loop ::
  "terminal \<Rightarrow> world \<Rightarrow> editor \<Rightarrow> int list \<Rightarrow> (bool \<times> editor \<times> world) option" where
  "confirm_exit_loop t w e [] = None"
| "confirm_exit_loop t w e (key # keys) =
     (if key = 121 \<or> key = 89 then
        (let fname = prompt_save_filename t e
         in if truthy fname then
              (case save_file fname w e of
                 (ok, e', w') \<Rightarrow> if ok then Some (True, e', w') else Some (False, e', w'))
            else Some (False, e, w))
      else if key = 110 \<or> key = 78 then Some (True, e, w)
      else if key = 99 \<or> key = 67 \<or> key = 27 then Some (False, e, w)
      else confirm_exit_loop t w e keys)"

definition confirm_exit :: "terminal \<Rightarrow> world \<Rightarrow> editor \<Rightarrow> (bool \<times> editor \<times> world) option" where
  "confirm_exit t w e =
     (if \<not> modified e then Some (True, e, w) else confirm_exit_loop t w e (answers t))"

subsection \<open>The main loop\<close>

text \<open>
  The state of \<open>run\<close>: the editor, the local variable \<open>cut_buffer\<close>, and the files. One
  turn of the loop dispatches one key and either goes on, leaves the loop (\<open>break\<close>),
  dies of an uncaught exception, or waits for a key that never comes.
\<close>

record session =
  ed :: editor
  cut_buffer :: string
  fs :: world

datatype outcome = Continue session | Break session | Raised | Blocked

definition go_on :: "session \<Rightarrow> editor option \<Rightarrow> outcome" where
  "go_on s r = (case r of None \<Rightarrow> Raised | Some e' \<Rightarrow> Continue (s\<lparr>ed := e'\<rparr>))"

text \<open>The key codes of curses (ncurses numbers them so).\<close>

definition KEY_DOWN :: int where "KEY_DOWN = 258"
definition KEY_UP :: int where "KEY_UP = 259"
definition KEY_LEFT :: int where "KEY_LEFT = 260"
definition KEY_RIGHT :: int where "KEY_RIGHT = 261"
definition KEY_HOME :: int where "KEY_HOME = 262"
definition KEY_BACKSPACE :: int where "KEY_BACKSPACE = 263"
definition KEY_DC :: int where "KEY_DC = 330"
definition KEY_NPAGE :: int where "KEY_NPAGE = 338"
definition KEY_PPAGE :: int where "KEY_PPAGE = 339"
definition KEY_ENTER :: int where "KEY_ENTER = 343"
definition KEY_END :: int where "KEY_END = 360"

definition cut_line :: "session \<Rightarrow> outcome" where
  "cut_line s =
     (let e = ed s
      in if lines e \<noteq> [] then
           (case py_index (lines e) (cursor_y e) of
              None \<Rightarrow> Raised
            | Some j \<Rightarrow>
                (let cb = lines e ! j;
                     ls1 = take j (lines e) @ drop (Suc j) (lines e);
                     ls2 = (if ls1 = [] then [[]] else ls1);
                     cy = (if cursor_y e \<ge> int (length ls2) then int (length ls2) - 1
                           else cursor_y e)
                 in Continue (s\<lparr>cut_buffer := cb,
                      ed := e\<lparr>lines := ls2, cursor_y := cy, cursor_x := 0, modified := True,
                              message := ''Cut line'', message_type := ''info''\<rparr>\<rparr>)))
         else Continue s)"

definition paste_line :: "session \<Rightarrow> outcome" where
  "paste_line s =
     (let e = ed s
      in if cut_buffer s \<noteq> [] then
           Continue (s\<lparr>ed := e\<lparr>lines := py_insert (lines e) (cursor_y e) (cut_buffer s),
                              modified := True, message := ''Pasted line'',
                              message_type := ''info''\<rparr>\<rparr>)
         else Continue s)"

definition line_start :: "terminal \<Rightarrow> session \<Rightarrow> outcome" where
  "line_start t s = Continue (s\<lparr>ed := adjust_scroll t ((ed s)\<lparr>cursor_x := 0\<rparr>)\<rparr>)"

definition line_end :: "terminal \<Rightarrow> session \<Rightarrow> outcome" where
  "line_end t s =
     (let e = ed s
      in case py_index (lines e) (cursor_y e) of
           None \<Rightarrow> Raised
         | Some j \<Rightarrow>
             Continue (s\<lparr>ed := adjust_scroll t (e\<lparr>cursor_x := int (length (lines e ! j))\<rparr>)\<rparr>))"

definition key_left :: "terminal \<Rightarrow> session \<Rightarrow> outcome" where
  "key_left t s =
     (let e = ed s
      in if cursor_x e > 0 then go_on s (move_cursor t 0 (- 1) e)
         else if cursor_y e > 0 then
           (case py_index (lines e) (cursor_y e - 1) of
              None \<Rightarrow> Raised
            | Some j \<Rightarrow>
                Continue (s\<lparr>ed := adjust_scroll t
                  (e\<lparr>cursor_y := cursor_y e - 1, cursor_x := int (length (lines e ! j))\<rparr>)\<rparr>))
         else Continue s)"

definition key_right :: "terminal \<Rightarrow> session \<Rightarrow> outcome" where
  "key_right t s =
     (let e = ed s
      in case py_index (lines e) (cursor_y e) of
           None \<Rightarrow> Raised
         | Some j \<Rightarrow>
             if cursor_x e < int (length (lines e ! j)) then go_on s (move_cursor t 0 1 e)
             else if cursor_y e < int (length (lines e)) - 1 then
               Continue (s\<lparr>ed := adjust_scroll t
                 (e\<lparr>cursor_y := cursor_y e + 1, cursor_x := 0\<rparr>)\<rparr>)
             else Continue s)"

text \<open>One turn of the \<open>while True\<close> loop of \<open>run\<close>, after \<open>getch\<close> returned \<open>key\<close>.\<close>

definition step :: "terminal \<Rightarrow> int \<Rightarrow> session \<Rightarrow> outcome" where
  "step t key s =
     (let e = ed s
      in if key = 24 then
           (case confirm_exit t (fs s) e of
              None \<Rightarrow> Blocked
            | Some (leave, e', w') \<Rightarrow>
                if leave then Break (s\<lparr>ed := e', fs := w'\<rparr>)
                else Continue (s\<lparr>ed := e', fs := w'\<rparr>))
         else if key = 15 then
           (let fname = prompt_save_filename t e
            in if truthy fname then
                 (case save_file fname (fs s) e of
                    (ok, e', w') \<Rightarrow> Continue (s\<lparr>ed := e', fs := w'\<rparr>))
               else Continue s)
         else if key = 23 then
           (let query = prompt_search t
            in if truthy query then go_on s (search t (the query) e) else Continue s)
         else if key = 11 then cut_line s
         else if key = 21 then paste_line s
         else if key = 7 then Continue s
         else if key = 1 then line_start t s
         else if key = 5 then line_end t s
         else if key = KEY_UP then go_on s (move_cursor t (- 1) 0 e)
         else if key = KEY_DOWN then go_on s (move_cursor t 1 0 e)
         else if key = KEY_LEFT then key_left t s
         else if key = KEY_RIGHT then key_right t s
         else if key = KEY_HOME then line_start t s
         else if key = KEY_END then line_end t s
         else if key = KEY_PPAGE then go_on s (move_cursor t (- fst (get_dimensions t)) 0 e)
         else if key = KEY_NPAGE then go_on s (move_cursor t (fst (get_dimensions t)) 0 e)
         else if key = KEY_ENTER \<or> key = 10 \<or> key = 13 then go_on s (insert_newline t e)
         else if key = KEY_BACKSPACE \<or> key = 127 \<or> key = 8 then go_on s (backspace t e)
         else if key = KEY_DC then go_on s (delete_char e)
         else if key = 9 then go_on s (insert_char t ''    '' e)
         else if 32 \<le> key \<and> key \<le> 126 then go_on s (insert_char t [char_of key] e)
         else Continue s)"

text \<open>The loop over the keys the terminal delivers, each with what the terminal supplies.\<close>

fun run :: "(terminal \<times> int) list \<Rightarrow> session \<Rightarrow> outcome" where
  "run [] s = Continue s"
| "run ((t, key) # rest) s =
     (case step t key s of
        Continue s' \<Rightarrow> run rest s'
      | Break s' \<Rightarrow> Break s'
      | Raised \<Rightarrow> Raised
      | Blocked \<Rightarrow> Blocked)"

text \<open>\<open>main\<close>: the editor as \<open>__init__\<close> leaves it, and an empty cut buffer.\<close>

definition start :: "string option \<Rightarrow> world \<Rightarrow> session" where
  "start fname w = \<lparr>ed = init fname w, cut_buffer = [], fs = w\<rparr>"

subsection \<open>The search as the specification words it\<close>

text \<open>
  The query occurs in \<open>s\<close> at position \<open>i\<close>.
\<close>

definition occurs_at :: "string \<Rightarrow> string \<Rightarrow> nat \<Rightarrow> bool" where
  "occurs_at q s i = (i + length q \<le> length s \<and> take (length q) (drop i s) = q)"

text \<open>
  Section 4.3 of the specification, written down from its words and not from the code:
  search the current line strictly after \<open>fromCol\<close>; if absent, the lines
  \<open>fromRow + 1\<close> to the last in order, leftmost match on each; if still absent, the
  lines \<open>0\<close> to \<open>fromRow - 1\<close> in order; the result tells a find in the same pass from a
  wrapped find and from not found.
\<close>

datatype search_result = Found nat nat | FoundWrapped nat nat | NotFound

definition leftmost_from :: "string \<Rightarrow> string \<Rightarrow> nat \<Rightarrow> nat option" where
  "leftmost_from q s k = List.find (occurs_at q s) [k ..< Suc (length s)]"

definition first_row_in :: "string \<Rightarrow> string list \<Rightarrow> nat list \<Rightarrow> (nat \<times> nat) option" where
  "first_row_in q ls rows =
     (case List.find (\<lambda>y. leftmost_from q (ls ! y) 0 \<noteq> None) rows of
        None \<Rightarrow> None
      | Some y \<Rightarrow> Some (y, the (leftmost_from q (ls ! y) 0)))"

definition search_spec :: "string \<Rightarrow> string list \<Rightarrow> nat \<Rightarrow> nat \<Rightarrow> search_result" where
  "search_spec q ls fromRow fromCol =
     (case leftmost_from q (ls ! fromRow) (fromCol + 1) of
        Some i \<Rightarrow> Found fromRow i
      | None \<Rightarrow>
          (case first_row_in q ls [fromRow + 1 ..< length ls] of
             Some (y, i) \<Rightarrow> Found y i
           | None \<Rightarrow>
               (case first_row_in q ls [0 ..< fromRow] of
                  Some (y, i) \<Rightarrow> FoundWrapped y i
                | None \<Rightarrow> NotFound)))"

text \<open>What a result of the specification's search does to the editor.\<close>

definition found_at :: "terminal \<Rightarrow> string \<Rightarrow> editor \<Rightarrow> search_result \<Rightarrow> editor" where
  "found_at t q e r =
     (case r of
        Found y x \<Rightarrow>
          adjust_scroll t (e\<lparr>cursor_y := int y, cursor_x := int x, message := found_msg q,
                              message_type := ''success''\<rparr>)
      | FoundWrapped y x \<Rightarrow>
          adjust_scroll t (e\<lparr>cursor_y := int y, cursor_x := int x, message := wrapped_msg q,
                              message_type := ''success''\<rparr>)
      | NotFound \<Rightarrow> e\<lparr>message := not_found_msg q, message_type := ''error''\<rparr>)"

subsection \<open>Predicates the properties are stated with\<close>

text \<open>
  The cursor addresses a position of the buffer: there is a line, the row is the index
  of a line, and the column lies within that line or just after its last character.
\<close>

definition cursor_in_bounds :: "editor \<Rightarrow> bool" where
  "cursor_in_bounds e =
     (lines e \<noteq> [] \<and> 0 \<le> cursor_y e \<and> cursor_y e < int (length (lines e))
      \<and> 0 \<le> cursor_x e \<and> cursor_x e \<le> int (length (lines e ! nat (cursor_y e))))"

text \<open>
  The keys \<open>confirm_exit\<close> takes as an answer (\<open>y\<close>, \<open>Y\<close>, \<open>n\<close>, \<open>N\<close>, \<open>c\<close>, \<open>C\<close>, ESC), and the
  first of them among the keys pressed.
\<close>

definition is_answer :: "int \<Rightarrow> bool" where
  "is_answer k = (k = 121 \<or> k = 89 \<or> k = 110 \<or> k = 78 \<or> k = 99 \<or> k = 67 \<or> k = 27)"

definition first_answer :: "int list \<Rightarrow> int option" where
  "first_answer keys = List.find is_answer keys"

subsection \<open>Example states\<close>

definition screen_24x80 :: terminal where
  "screen_24x80 = \<lparr>max_y = 24, max_x = 80, input_str = [], answers = []\<rparr>"

definition empty_disk :: world where
  "empty_disk = \<lparr>files = (\<lambda>p. None), write_error = (\<lambda>p. None), read_error = (\<lambda>p. None)\<rparr>"

definition buffer_at :: "string list \<Rightarrow> int \<Rightarrow> int \<Rightarrow> editor" where
  "buffer_at ls row col =
     \<lparr>filename = None, lines = ls, cursor_y = row, cursor_x = col, offset_y = 0,
      offset_x = 0, modified = False, message = [], message_type = ''info''\<rparr>"

definition unsaved :: session where
  "unsaved =
     \<lparr>ed = (buffer_at [''hello'', ''world''] 0 5)\<lparr>modified := True\<rparr>, cut_buffer = [],
      fs = \<lparr>files = (\<lambda>p. None),
             write_error = (\<lambda>p. if p = ''ro'' then Some ''denied'' else None),
             read_error = (\<lambda>p. None)\<rparr>\<rparr>"

definition answering :: "int list \<Rightarrow> string \<Rightarrow> terminal" where
  "answering keys typed = \<lparr>max_y = 24, max_x = 80, input_str = typed, answers = keys\<rparr>"

section \<open>Properties\<close>

subsection \<open>Indices in range\<close>

lemma py_index_in_range:
  "0 \<le> i \<Longrightarrow> i < int (length xs) \<Longrightarrow> py_index xs i = Some (nat i)"
  by (simp add: py_index_def)

lemma py_clip_nonneg: "0 \<le> i \<Longrightarrow> py_clip n i = min n (nat i)"
  by (simp add: py_clip_def)

lemma lines_adjust_scroll: "lines (adjust_scroll t e) = lines e"
  by (simp add: adjust_scroll_def Let_def split: prod.splits)

lemma cursor_adjust_scroll:
  "cursor_y (adjust_scroll t e) = cursor_y e" "cursor_x (adjust_scroll t e) = cursor_x e"
  by (simp_all add: adjust_scroll_def Let_def split: prod.splits)

subsection \<open>Saving\<close>

lemma py_join_lines:
  "ls \<noteq> [] \<Longrightarrow> py_join sep ls = concat (map (\<lambda>l. l @ sep) (butlast ls)) @ last ls"
  by (induction sep ls rule: py_join.induct) simp_all

lemma truthy_SomeE: "truthy x \<Longrightarrow> \<exists>p. x = Some p \<and> p \<noteq> []"
  by (cases x) simp_all

lemma save_file_written:
  assumes "save_file fname w e = (True, e', w')"
  shows "\<exists>path. filename e' = Some path \<and> path \<noteq> [] \<and> write_error w path = None
           \<and> filename e' = (if truthy fname then fname else filename e)
           \<and> lines e' = lines e
           \<and> w' = w\<lparr>files := (files w)(path \<mapsto> file_text (lines e))\<rparr>"
proof -
  define e1 where "e1 = (if truthy fname then e\<lparr>filename := fname\<rparr> else e)"
  have ok: "truthy (filename e1)"
    using assms by (auto simp: save_file_def e1_def Let_def split: if_splits)
  then obtain path where p: "filename e1 = Some path" "path \<noteq> []"
    using truthy_SomeE by blast
  have l1: "lines e1 = lines e" by (simp add: e1_def)
  have f1: "filename e1 = (if truthy fname then fname else filename e)" by (simp add: e1_def)
  have "save_file fname w e =
     (case write_error w path of
        None \<Rightarrow>
          (True,
           e1\<lparr>modified := False,
             message := ''Wrote '' @ str_nat (length (lines e1)) @ '' lines to '' @ path,
             message_type := ''success''\<rparr>,
           w\<lparr>files := (files w)(path \<mapsto> file_text (lines e1))\<rparr>)
      | Some err \<Rightarrow>
          (False,
           e1\<lparr>message := ''Error writing '' @ path @ '': '' @ err,
             message_type := ''error''\<rparr>,
           w))"
    using ok p unfolding save_file_def e1_def[symmetric] Let_def
    by (simp split: option.splits)
  with assms show ?thesis
    using p l1 f1 by (auto split: option.splits)
qed

text \<open>
  Claim C8. For every non-empty list of lines, a save that succeeds writes the lines
  with one line feed between each pair, that is every line but the last followed by a
  line feed and then the last line, and after that one more line feed if and only if the
  last line is not empty; no other file changes.
\<close>

theorem save_file_text:
  assumes "lines e \<noteq> []" and "save_file fname w e = (True, e', w')"
  shows "\<exists>path. filename e' = Some path \<and> path \<noteq> [] \<and>
           files w' path =
             Some (concat (map (\<lambda>l. l @ [LF]) (butlast (lines e))) @ last (lines e)
                   @ (if last (lines e) \<noteq> [] then [LF] else []))
           \<and> (\<forall>p. p \<noteq> path \<longrightarrow> files w' p = files w p)"
proof -
  from save_file_written[OF assms(2)] obtain path where
    p: "filename e' = Some path" "path \<noteq> []"
       "w' = w\<lparr>files := (files w)(path \<mapsto> file_text (lines e))\<rparr>" by blast
  show ?thesis
    using p assms(1) by (simp add: file_text_def py_join_lines)
qed

theorem save_file_text_witness:
  "lines (buffer_at [''a'', ''b''] 0 0) \<noteq> []
   \<and> fst (save_file (Some ''f'') empty_disk (buffer_at [''a'', ''b''] 0 0))
   \<and> files (snd (snd (save_file (Some ''f'') empty_disk (buffer_at [''a'', ''b''] 0 0)))) ''f''
       = Some [CHR ''a'', LF, CHR ''b'', LF]
   \<and> files (snd (snd (save_file (Some ''f'') empty_disk (buffer_at [''a'', ''b''] 0 0)))) ''g''
       = None"
proof -
  let ?r = "save_file (Some ''f'') empty_disk (buffer_at [''a'', ''b''] 0 0)"
  have ne: "lines (buffer_at [''a'', ''b''] 0 0) \<noteq> []" by (simp add: buffer_at_def)
  have ok: "fst ?r" by (simp add: save_file_def empty_disk_def buffer_at_def Let_def)
  then have h: "?r = (True, fst (snd ?r), snd (snd ?r))" by (cases ?r) simp
  have fn: "filename (fst (snd ?r)) = Some ''f''"
    by (simp add: save_file_def empty_disk_def buffer_at_def Let_def)
  from save_file_text[OF ne h] fn ne ok show ?thesis
    by (simp add: buffer_at_def empty_disk_def LF_def)
qed

text \<open>
  Claim C10. \<open>save_file\<close> called with no file name while the buffer has none returns
  \<open>False\<close> and leaves the editor (message, modified flag, lines, cursor) and the files as
  they were.
\<close>

theorem save_file_no_filename:
  "\<not> truthy fname \<Longrightarrow> \<not> truthy (filename e) \<Longrightarrow> save_file fname w e = (False, e, w)"
  by (simp add: save_file_def)

theorem save_file_no_filename_witness:
  "\<not> truthy None \<and> \<not> truthy (filename (buffer_at [''foo'', ''bar'', ''foo''] 0 0))
   \<and> save_file None empty_disk (buffer_at [''foo'', ''bar'', ''foo''] 0 0)
       = (False, buffer_at [''foo'', ''bar'', ''foo''] 0 0, empty_disk)"
  using save_file_no_filename [of None "buffer_at [''foo'', ''bar'', ''foo''] 0 0" empty_disk]
  by (simp add: buffer_at_def)

subsection \<open>Splitting and joining a line\<close>

lemma split_merge_list:
  assumes "j < length xs" and "a @ b = xs ! j"
  defines "ls2 \<equiv> take (Suc j) (xs[j := a]) @ b # drop (Suc j) (xs[j := a])"
  shows "ls2 ! j = a" and "ls2 ! Suc j = b" and "length ls2 = Suc (length xs)"
    and "take (Suc j) (ls2[j := a @ b]) @ drop (Suc (Suc j)) (ls2[j := a @ b]) = xs"
proof -
  obtain pre post where xs: "xs = pre @ (a @ b) # post" and len: "length pre = j"
    using assms(1,2) id_take_nth_drop[of j xs]
    by (metis length_take min.absorb2 less_imp_le_nat)
  have l2: "ls2 = pre @ a # b # post"
    unfolding ls2_def xs using len by (simp add: list_update_append)
  show "ls2 ! j = a" using len by (simp add: l2 nth_append)
  show "ls2 ! Suc j = b" using len by (simp add: l2 nth_append)
  show "length ls2 = Suc (length xs)" by (simp add: l2 xs)
  show "take (Suc j) (ls2[j := a @ b]) @ drop (Suc (Suc j)) (ls2[j := a @ b]) = xs"
    using len by (simp add: l2 xs list_update_append)
qed

text \<open>
  Claim C7. For every line and every column within it (the end of the line included),
  Enter at (row, col) moves the cursor to (row + 1, 0) and adds one line, and a Backspace
  there gives back the lines as they were and the cursor at (row, col).
\<close>

theorem split_then_backspace:
  assumes "0 \<le> cursor_y e" and "cursor_y e < int (length (lines e))"
    and "0 \<le> cursor_x e" and "cursor_x e \<le> int (length (lines e ! nat (cursor_y e)))"
  shows "\<exists>e1 e2. insert_newline t e = Some e1 \<and> cursor_y e1 = cursor_y e + 1 \<and> cursor_x e1 = 0
           \<and> length (lines e1) = Suc (length (lines e))
           \<and> backspace t' e1 = Some e2
           \<and> lines e2 = lines e \<and> cursor_y e2 = cursor_y e \<and> cursor_x e2 = cursor_x e"
proof -
  define j where "j = nat (cursor_y e)"
  define line where "line = lines e ! j"
  define a where "a = take (nat (cursor_x e)) line"
  define b where "b = drop (nat (cursor_x e)) line"
  define ls2 where
    "ls2 = take (Suc j) ((lines e)[j := a]) @ b # drop (Suc j) ((lines e)[j := a])"
  define e1 where
    "e1 = adjust_scroll t
            (e\<lparr>lines := ls2, cursor_y := cursor_y e + 1, cursor_x := 0,
                modified := True, message := []\<rparr>)"
  have j: "j < length (lines e)" "int j = cursor_y e" using assms by (simp_all add: j_def)
  have ab: "a @ b = lines e ! j" by (simp add: a_def b_def line_def)
  note L = split_merge_list[OF j(1) ab, folded ls2_def]
  have la: "int (length a) = cursor_x e"
    using assms(3,4) by (simp add: a_def line_def j_def)
  have 1: "insert_newline t e = Some e1"
    using assms j
    by (simp add: insert_newline_def py_index_in_range Let_def slice_to_def slice_from_def
        py_clip_nonneg py_insert_def e1_def ls2_def a_def b_def line_def j_def[symmetric]
        nat_add_distrib min_absorb2 Suc_leI)
  have c1: "cursor_y e1 = cursor_y e + 1" "cursor_x e1 = 0" "lines e1 = ls2"
    by (simp_all add: e1_def cursor_adjust_scroll lines_adjust_scroll)
  define e2 where
    "e2 = adjust_scroll t'
            (e1\<lparr>lines := lines e, cursor_y := cursor_y e, cursor_x := cursor_x e,
                modified := True, message := []\<rparr>)"
  have i1: "py_index ls2 (cursor_y e) = Some j"
    using j L(3) assms(1) by (simp add: py_index_in_range j_def)
  have i2: "py_index ls2 (cursor_y e + 1) = Some (Suc j)"
    using j L(3) assms(1) by (simp add: py_index_in_range j_def nat_add_distrib)
  have i3: "py_pop (ls2[j := a @ b]) (cursor_y e + 1) = Some (lines e)"
    using j L(3,4) assms(1) by (simp add: py_pop_def py_index_in_range j_def nat_add_distrib)
  have 2: "backspace t' e1 = Some e2"
    using assms(1) by (simp add: backspace_def c1 i1 i2 i3 L(1,2) Let_def e2_def la)
  show ?thesis
    using 1 2 c1 L(3) by (simp add: e2_def cursor_adjust_scroll lines_adjust_scroll)
qed

theorem split_then_backspace_witness:
  "0 \<le> cursor_y (buffer_at [''hello'', ''world''] 0 5)
   \<and> cursor_y (buffer_at [''hello'', ''world''] 0 5)
       < int (length (lines (buffer_at [''hello'', ''world''] 0 5)))
   \<and> 0 \<le> cursor_x (buffer_at [''hello'', ''world''] 0 5)
   \<and> cursor_x (buffer_at [''hello'', ''world''] 0 5)
       \<le> int (length (lines (buffer_at [''hello'', ''world''] 0 5)
                        ! nat (cursor_y (buffer_at [''hello'', ''world''] 0 5))))
   \<and> (\<exists>e1 e2. insert_newline screen_24x80 (buffer_at [''hello'', ''world''] 0 5) = Some e1
         \<and> cursor_y e1 = 1 \<and> cursor_x e1 = 0 \<and> length (lines e1) = 3
         \<and> backspace screen_24x80 e1 = Some e2
         \<and> lines e2 = [''hello'', ''world''] \<and> cursor_y e2 = 0 \<and> cursor_x e2 = 5)"
  using split_then_backspace
    [of "buffer_at [''hello'', ''world''] 0 5" screen_24x80 screen_24x80]
  by (simp add: buffer_at_def numeral_3_eq_3)

subsection \<open>Saving and loading again\<close>

lemma linebreak_CR_LF: "is_linebreak CR" "is_linebreak LF" "LF \<noteq> CR"
  by (simp_all add: is_linebreak_def LF_def CR_def)

lemma universal_newlines_no_CR: "CR \<notin> set s \<Longrightarrow> universal_newlines s = s"
  by (induction s rule: universal_newlines.induct) auto

lemma splitlines_from_line:
  "\<forall>c\<in>set l. \<not> is_linebreak c \<Longrightarrow>
     splitlines_from cur (l @ LF # rest) = (cur @ l) # splitlines_from [] rest"
proof (induction l arbitrary: cur)
  case Nil
  then show ?case using linebreak_CR_LF by (cases rest) simp_all
next
  case (Cons c l)
  then have c: "\<not> is_linebreak c" and l: "\<forall>c\<in>set l. \<not> is_linebreak c" by simp_all
  obtain d cs where dc: "l @ LF # rest = d # cs" by (cases "l @ LF # rest") simp_all
  have "c \<noteq> CR" using c linebreak_CR_LF by auto
  then have "splitlines_from cur ((c # l) @ LF # rest)
      = splitlines_from (cur @ [c]) (l @ LF # rest)"
    using c dc by simp
  also have "\<dots> = ((cur @ [c]) @ l) # splitlines_from [] rest"
    using Cons.IH[OF l] .
  finally show ?case by simp
qed

lemma splitlines_terminated:
  "\<forall>l\<in>set ls. \<forall>c\<in>set l. \<not> is_linebreak c \<Longrightarrow>
     splitlines_from [] (concat (map (\<lambda>l. l @ [LF]) ls)) = ls"
  by (induction ls) (simp_all add: splitlines_from_line)

lemma concat_terminated:
  "ls \<noteq> [] \<Longrightarrow> concat (map (\<lambda>l. l @ sep) ls)
      = concat (map (\<lambda>l. l @ sep) (butlast ls)) @ last ls @ sep"
  by (induction ls) simp_all

lemma file_text_terminated:
  "ls \<noteq> [] \<Longrightarrow> last ls \<noteq> [] \<Longrightarrow> file_text ls = concat (map (\<lambda>l. l @ [LF]) ls)"
  by (simp add: file_text_def py_join_lines concat_terminated)

lemma no_CR_terminated:
  "\<forall>l\<in>set ls. \<forall>c\<in>set l. \<not> is_linebreak c \<Longrightarrow>
     CR \<notin> set (concat (map (\<lambda>l. l @ [LF]) ls))"
  using linebreak_CR_LF by auto

lemma splitlines_file_text:
  assumes "ls \<noteq> []" and "\<forall>l\<in>set ls. \<forall>c\<in>set l. \<not> is_linebreak c"
    and "last ls \<noteq> [] \<or> ls = [[]]"
  shows "(let r = splitlines (universal_newlines (file_text ls))
          in if r = [] then [[]] else r) = ls"
proof (cases "last ls \<noteq> []")
  case True
  have ft: "file_text ls = concat (map (\<lambda>l. l @ [LF]) ls)"
    using assms(1) True by (rule file_text_terminated)
  have "universal_newlines (file_text ls) = file_text ls"
    unfolding ft using assms(2) by (intro universal_newlines_no_CR no_CR_terminated)
  then show ?thesis
    using assms(1,2) by (simp add: splitlines_def ft splitlines_terminated)
next
  case False
  with assms(3) have "ls = [[]]" by simp
  then show ?thesis by (simp add: file_text_def splitlines_def)
qed

text \<open>
  Claim C6. For every buffer of at least one line, no line holding a line boundary,
  whose last line is not empty or which is the single empty line: after a save to a
  path that succeeds, loading that path (the read not failing) into any editor,
  whatever lines it held before, gives the lines that were saved, in the same order.
\<close>

theorem save_load_round_trip:
  assumes "lines e \<noteq> []"
    and "\<forall>l\<in>set (lines e). \<forall>c\<in>set l. \<not> is_linebreak c"
    and "last (lines e) \<noteq> [] \<or> lines e = [[]]"
    and "path \<noteq> []"
    and "save_file (Some path) w e = (True, e', w')"
    and "read_error w' path = None"
  shows "\<exists>e''. load_file path w' e0 = (True, e'') \<and> lines e'' = lines e"
proof -
  from save_file_written[OF assms(5)] assms(4) have
    w': "w' = w\<lparr>files := (files w)(path \<mapsto> file_text (lines e))\<rparr>"
    by auto
  have f: "files w' path = Some (file_text (lines e))" by (simp add: w')
  show ?thesis
    using splitlines_file_text[OF assms(1,2,3)] assms(6) f
    by (simp add: load_file_def Let_def)
qed

theorem save_load_round_trip_witness:
  "lines (buffer_at [''a'', '''', ''b''] 0 0) \<noteq> []
   \<and> list_all (list_all (\<lambda>c. \<not> is_linebreak c)) (lines (buffer_at [''a'', '''', ''b''] 0 0))
   \<and> last (lines (buffer_at [''a'', '''', ''b''] 0 0)) \<noteq> []
   \<and> fst (save_file (Some ''f'') empty_disk (buffer_at [''a'', '''', ''b''] 0 0))
   \<and> read_error
        (snd (snd (save_file (Some ''f'') empty_disk (buffer_at [''a'', '''', ''b''] 0 0))))
        ''f'' = None
   \<and> lines (buffer_at [''other''] 0 0) = [''other'']
   \<and> fst (load_file ''f''
        (snd (snd (save_file (Some ''f'') empty_disk (buffer_at [''a'', '''', ''b''] 0 0))))
        (buffer_at [''other''] 0 0))
   \<and> lines (snd (load_file ''f''
        (snd (snd (save_file (Some ''f'') empty_disk (buffer_at [''a'', '''', ''b''] 0 0))))
        (buffer_at [''other''] 0 0)))
      = [''a'', '''', ''b'']"
proof -
  let ?e = "buffer_at [''a'', '''', ''b''] 0 0"
  let ?r = "save_file (Some ''f'') empty_disk ?e"
  have ne: "lines ?e \<noteq> []" by (simp add: buffer_at_def)
  have cl: "\<forall>l\<in>set (lines ?e). \<forall>c\<in>set l. \<not> is_linebreak c"
    by (simp add: buffer_at_def is_linebreak_def LF_def CR_def)
  have la: "last (lines ?e) \<noteq> [] \<or> lines ?e = [[]]" by (simp add: buffer_at_def)
  have ok: "fst ?r" by (simp add: save_file_def empty_disk_def buffer_at_def Let_def)
  then have h: "?r = (True, fst (snd ?r), snd (snd ?r))" by (cases ?r) simp
  have re: "read_error (snd (snd ?r)) ''f'' = None"
    by (simp add: save_file_def empty_disk_def buffer_at_def Let_def)
  have p: "''f'' \<noteq> []" by simp
  have ot: "lines (buffer_at [''other''] 0 0) = [''other'']" by (simp add: buffer_at_def)
  from save_load_round_trip[OF ne cl la p h re, of "buffer_at [''other''] 0 0"]
    ne cl la ok re ot
  show ?thesis
    by (auto simp: buffer_at_def list_all_iff)
qed

subsection \<open>Search\<close>

lemma take_eq_length: "take (length q) s = q \<Longrightarrow> length q \<le> length s"
proof -
  assume "take (length q) s = q"
  then have "length (take (length q) s) = length q" by (rule arg_cong)
  then show ?thesis by simp
qed

lemma occurs_at_Cons_0: "occurs_at q (c # s) 0 = (take (length q) (c # s) = q)"
  using take_eq_length[of q "c # s"] by (auto simp: occurs_at_def)

lemma occurs_at_Cons_Suc: "occurs_at q (c # s) (Suc i) = occurs_at q s i"
  by (simp add: occurs_at_def)

lemma occurs_at_Nil: "q \<noteq> [] \<Longrightarrow> \<not> occurs_at q [] i"
  by (simp add: occurs_at_def)

lemma occurs_at_drop: "q \<noteq> [] \<Longrightarrow> occurs_at q (drop k s) i = occurs_at q s (k + i)"
proof -
  assume "q \<noteq> []"
  then have "0 < length q" by simp
  then have "(i + length q \<le> length s - k) = (k + i + length q \<le> length s)" by arith
  then show ?thesis by (simp add: occurs_at_def add.commute)
qed

lemma py_find_ge: "- 1 \<le> py_find s q"
  by (induction s) (simp_all add: Let_def)

lemma py_find_none: "q \<noteq> [] \<Longrightarrow> (py_find s q = - 1) = (\<forall>i. \<not> occurs_at q s i)"
proof (induction s)
  case Nil
  then show ?case by (simp add: occurs_at_Nil)
next
  case (Cons c s)
  have "(\<forall>i. \<not> occurs_at q (c # s) i) = (\<not> occurs_at q (c # s) 0 \<and> (\<forall>i. \<not> occurs_at q s i))"
  proof (intro iffI conjI allI)
    fix i
    assume a: "\<not> occurs_at q (c # s) 0 \<and> (\<forall>i. \<not> occurs_at q s i)"
    show "\<not> occurs_at q (c # s) i" using a by (cases i) (simp_all add: occurs_at_Cons_Suc)
  next
    fix i
    assume "\<forall>i. \<not> occurs_at q (c # s) i"
    then have "\<not> occurs_at q (c # s) (Suc i)" by blast
    then show "\<not> occurs_at q s i" by (simp add: occurs_at_Cons_Suc)
  qed blast
  then show ?case using Cons py_find_ge[of s q]
    by (simp add: Let_def occurs_at_Cons_0)
qed

lemma py_find_least:
  "q \<noteq> [] \<Longrightarrow> py_find s q \<noteq> - 1 \<Longrightarrow>
     0 \<le> py_find s q \<and> occurs_at q s (nat (py_find s q))
     \<and> (\<forall>j < nat (py_find s q). \<not> occurs_at q s j)"
proof (induction s)
  case Nil
  then show ?case by simp
next
  case (Cons c s)
  show ?case
  proof (cases "take (length q) (c # s) = q")
    case True
    then show ?thesis by (simp add: occurs_at_Cons_0)
  next
    case False
    with Cons.prems have r: "py_find s q \<noteq> - 1" and eq: "py_find (c # s) q = py_find s q + 1"
      by (simp_all add: Let_def split: if_splits)
    from Cons.IH[OF Cons.prems(1) r] have ih: "0 \<le> py_find s q"
      "occurs_at q s (nat (py_find s q))" "\<forall>j < nat (py_find s q). \<not> occurs_at q s j" by simp_all
    have n: "nat (py_find s q + 1) = Suc (nat (py_find s q))" using ih(1) by simp
    have "\<not> occurs_at q (c # s) j" if "j < Suc (nat (py_find s q))" for j
      using that False ih(3) by (cases j) (simp_all add: occurs_at_Cons_0 occurs_at_Cons_Suc)
    then have 3: "\<forall>j < nat (py_find s q + 1). \<not> occurs_at q (c # s) j"
      unfolding n by blast
    have 2: "occurs_at q (c # s) (nat (py_find s q + 1))"
      unfolding n using ih(2) by (simp add: occurs_at_Cons_Suc)
    have 1: "0 \<le> py_find s q + 1" using ih(1) by simp
    show ?thesis unfolding eq using 1 2 3 by blast
  qed
qed

lemma find_upt_None: "(\<forall>j. k \<le> j \<and> j < n \<longrightarrow> \<not> P j) \<Longrightarrow> List.find P [k..<n] = None"
  by (simp add: find_None_iff)

lemma find_upt_least:
  assumes "P i" "k \<le> i" "i < n" "\<forall>j. k \<le> j \<and> j < i \<longrightarrow> \<not> P j"
  shows "List.find P [k..<n] = Some i"
proof -
  have "i - k < length [k..<n]" using assms by simp
  moreover have "[k..<n] ! (i - k) = i" using assms by simp
  moreover have "\<forall>j<i - k. \<not> P ([k..<n] ! j)" using assms by auto
  ultimately show ?thesis using assms(1) unfolding find_Some_iff
    by (intro exI[of _ "i - k"]) simp
qed

lemma occurs_at_bound: "occurs_at q s i \<Longrightarrow> i < Suc (length s)"
  by (simp add: occurs_at_def)

lemma leftmost_from_py_find:
  assumes "q \<noteq> []"
  shows "leftmost_from q s k =
           (if py_find (drop k s) q = - 1 then None else Some (k + nat (py_find (drop k s) q)))"
proof (cases "py_find (drop k s) q = - 1")
  case True
  then have "\<forall>i. \<not> occurs_at q s (k + i)"
    using py_find_none[OF assms, of "drop k s"] occurs_at_drop[OF assms] by simp
  then have "\<forall>j. k \<le> j \<and> j < Suc (length s) \<longrightarrow> \<not> occurs_at q s j"
    using le_Suc_ex by blast
  then have "List.find (occurs_at q s) [k..<Suc (length s)] = None"
    by (rule find_upt_None)
  then show ?thesis using True by (simp del: upt_Suc add: leftmost_from_def)
next
  case False
  let ?p = "nat (py_find (drop k s) q)"
  from py_find_least[OF assms False] have
    o: "occurs_at q s (k + ?p)" and l: "\<forall>j < ?p. \<not> occurs_at q s (k + j)"
    using occurs_at_drop[OF assms] by simp_all
  have "\<not> occurs_at q s j" if "k \<le> j \<and> j < k + ?p" for j
  proof -
    from that obtain d where "j = k + d" using le_Suc_ex by blast
    with that l show ?thesis by simp
  qed
  then have "\<forall>j. k \<le> j \<and> j < k + ?p \<longrightarrow> \<not> occurs_at q s j" by blast
  with o have "List.find (occurs_at q s) [k..<Suc (length s)] = Some (k + ?p)"
    using occurs_at_bound[OF o] by (intro find_upt_least) simp_all
  then show ?thesis using False by (simp del: upt_Suc add: leftmost_from_def)
qed

lemma search_rows_first_row_in:
  assumes "q \<noteq> []" and "\<forall>y\<in>set rows. y < length ls"
  shows "search_rows ls q (map int rows) =
           (case first_row_in q ls rows of None \<Rightarrow> NoHit | Some (y, i) \<Rightarrow> Hit (int y) (int i))"
  using assms(2)
proof (induction rows)
  case Nil
  then show ?case by (simp add: first_row_in_def)
next
  case (Cons y rows)
  then have y: "y < length ls" and ih: "search_rows ls q (map int rows) =
           (case first_row_in q ls rows of None \<Rightarrow> NoHit | Some (y, i) \<Rightarrow> Hit (int y) (int i))"
    by simp_all
  have lm: "leftmost_from q (ls ! y) 0 =
      (if py_find (ls ! y) q = - 1 then None else Some (nat (py_find (ls ! y) q)))"
    using leftmost_from_py_find[OF assms(1), of "ls ! y" 0] by simp
  show ?case
  proof (cases "py_find (ls ! y) q = - 1")
    case True
    then show ?thesis using y ih lm
      by (simp add: py_index_in_range first_row_in_def)
  next
    case False
    moreover have "0 \<le> py_find (ls ! y) q" using py_find_ge[of "ls ! y" q] False by simp
    ultimately show ?thesis using y lm
      by (simp add: py_index_in_range first_row_in_def)
  qed
qed

lemma upto_map_int: "[int a .. int b - 1] = map int [a ..< b]"
proof (induction b)
  case 0
  then show ?case by simp
next
  case (Suc b)
  show ?case
  proof (cases "a \<le> b")
    case True
    then have "[int a .. int (Suc b) - 1] = [int a .. int b - 1] @ [int b]"
      using upto_rec2[of "int a" "int b"] by simp
    then show ?thesis using Suc True by simp
  next
    case False
    then show ?thesis by simp
  qed
qed


lemma drop_min_length: "drop (min (length s) k) s = drop k s"
  by (cases "k \<le> length s") (simp_all add: min_def)

lemma search_refines:
  assumes "q \<noteq> []" and "0 \<le> cursor_y e" and "cursor_y e < int (length (lines e))"
    and "0 \<le> cursor_x e"
  shows "search t q e =
           Some (found_at t q e (search_spec q (lines e) (nat (cursor_y e)) (nat (cursor_x e))))"
proof -
  define j where "j = nat (cursor_y e)"
  define k where "k = nat (cursor_x e)"
  define ls where "ls = lines e"
  define line where "line = ls ! j"
  have j: "j < length ls" "int j = cursor_y e" using assms by (simp_all add: j_def ls_def)
  have k: "int k = cursor_x e" using assms by (simp add: k_def)
  have idx: "py_index (lines e) (cursor_y e) = Some j"
    using assms by (simp add: py_index_in_range j_def)
  have sl: "slice_from line (cursor_x e + 1) = drop (k + 1) line"
    using assms(4) by (simp add: slice_from_def py_clip_nonneg drop_min_length k_def nat_add_distrib)
  have r1: "[cursor_y e + 1 .. int (length (lines e)) - 1] = map int [j + 1 ..< length ls]"
    using upto_map_int[of "j + 1" "length ls"] j by (simp add: ls_def add.commute)
  have r2: "[0 .. cursor_y e - 1] = map int [0 ..< j]"
    using upto_map_int[of 0 j] j by simp
  have b1: "\<forall>y\<in>set [j + 1 ..< length ls]. y < length ls" by simp
  have b2: "\<forall>y\<in>set [0 ..< j]. y < length ls" using j by simp
  note s1 = search_rows_first_row_in[OF assms(1) b1]
  note s2 = search_rows_first_row_in[OF assms(1) b2]
  note lm = leftmost_from_py_find[OF assms(1), of line "k + 1"]
  show ?thesis
  proof (cases "py_find (drop (k + 1) line) q = - 1")
    case False
    then have p: "0 \<le> py_find (drop (k + 1) line) q"
      using py_find_ge[of "drop (k + 1) line" q] by simp
    have "search_spec q ls j k = Found j (k + 1 + nat (py_find (drop (k + 1) line) q))"
      using False lm by (simp add: search_spec_def line_def del: upt_Suc)
    moreover have "search t q e = Some (adjust_scroll t
                        (e\<lparr>cursor_x := cursor_x e + 1 + py_find (drop (k + 1) line) q,
                            message := found_msg q, message_type := ''success''\<rparr>))"
      using False assms(1) idx sl by (simp add: search_def Let_def line_def ls_def)
    ultimately show ?thesis
      using p j k
      by (simp add: found_at_def j_def[symmetric] k_def[symmetric] ls_def[symmetric] ac_simps)
  next
    case True
    then have l0: "leftmost_from q line (k + 1) = None" using lm by simp
    show ?thesis
    proof (cases "first_row_in q ls [j + 1 ..< length ls]")
      case (Some yi)
      obtain y i where yi: "yi = (y, i)" by (cases yi)
      have "search_spec q ls j k = Found y i"
        using l0 Some yi by (simp add: search_spec_def line_def del: upt_Suc)
      moreover have "search t q e = Some (adjust_scroll t
                        (e\<lparr>cursor_y := int y, cursor_x := int i,
                            message := found_msg q, message_type := ''success''\<rparr>))"
        using True assms(1) idx sl s1 Some yi r1
        by (simp add: search_def Let_def line_def ls_def del: upt_Suc)
      ultimately show ?thesis
        by (simp add: found_at_def j_def[symmetric] k_def[symmetric] ls_def[symmetric])
    next
      case None
      note n1 = None
      show ?thesis
      proof (cases "first_row_in q ls [0 ..< j]")
        case (Some yi)
        obtain y i where yi: "yi = (y, i)" by (cases yi)
        have "search_spec q ls j k = FoundWrapped y i"
          using l0 n1 Some yi by (simp add: search_spec_def line_def del: upt_Suc)
        moreover have "search t q e = Some (adjust_scroll t
                        (e\<lparr>cursor_y := int y, cursor_x := int i,
                            message := wrapped_msg q, message_type := ''success''\<rparr>))"
          using True assms(1) idx sl s1 s2 n1 Some yi r1 r2
          by (simp add: search_def Let_def line_def ls_def del: upt_Suc)
        ultimately show ?thesis
          by (simp add: found_at_def j_def[symmetric] k_def[symmetric] ls_def[symmetric])
      next
        case None
        have "search_spec q ls j k = NotFound"
          using l0 n1 None by (simp add: search_spec_def line_def del: upt_Suc)
        moreover have "search t q e = Some (e\<lparr>message := not_found_msg q, message_type := ''error''\<rparr>)"
          using True assms(1) idx sl s1 s2 n1 None r1 r2
          by (simp add: search_def Let_def line_def ls_def del: upt_Suc)
        ultimately show ?thesis
          by (simp add: found_at_def j_def[symmetric] k_def[symmetric] ls_def[symmetric])
      qed
    qed
  qed
qed


lemma leftmost_from_None_iff:
  "(leftmost_from q s k = None) = (\<forall>i\<ge>k. \<not> occurs_at q s i)"
proof -
  have "(\<forall>i\<in>set [k..<Suc (length s)]. \<not> occurs_at q s i) = (\<forall>i\<ge>k. \<not> occurs_at q s i)"
    using occurs_at_bound[of q s] by (auto simp del: upt_Suc)
  then show ?thesis unfolding leftmost_from_def find_None_iff by blast
qed

lemma leftmost_from_Some:
  assumes "leftmost_from q s k = Some i"
  shows "occurs_at q s i" and "k \<le> i"
proof -
  from assms obtain n where n: "n < length [k..<Suc (length s)]"
    "occurs_at q s ([k..<Suc (length s)] ! n)" "i = [k..<Suc (length s)] ! n"
    unfolding leftmost_from_def find_Some_iff by blast
  have "[k..<Suc (length s)] ! n = k + n" using n(1) by (simp del: upt_Suc)
  then show "occurs_at q s i" and "k \<le> i" using n by simp_all
qed

lemma first_row_in_None_iff:
  "(first_row_in q ls rows = None) = (\<forall>y\<in>set rows. \<forall>i. \<not> occurs_at q (ls ! y) i)"
proof -
  define r where "r = List.find (\<lambda>y. leftmost_from q (ls ! y) 0 \<noteq> None) rows"
  have "(r = None) = (\<forall>y\<in>set rows. \<forall>i. \<not> occurs_at q (ls ! y) i)"
    unfolding r_def find_None_iff by (auto simp: leftmost_from_None_iff)
  moreover have "first_row_in q ls rows =
      (case r of None \<Rightarrow> None | Some y \<Rightarrow> Some (y, the (leftmost_from q (ls ! y) 0)))"
    unfolding r_def first_row_in_def ..
  ultimately show ?thesis by (cases r) simp_all
qed

lemma first_row_in_Some:
  assumes "first_row_in q ls rows = Some (y, i)"
  shows "y \<in> set rows" and "occurs_at q (ls ! y) i"
proof -
  from assms have f: "List.find (\<lambda>y. leftmost_from q (ls ! y) 0 \<noteq> None) rows = Some y"
    and i: "i = the (leftmost_from q (ls ! y) 0)"
    by (auto simp: first_row_in_def split: option.splits)
  from f obtain n where n: "n < length rows" "leftmost_from q (ls ! (rows ! n)) 0 \<noteq> None"
    "y = rows ! n" unfolding find_Some_iff by blast
  show "y \<in> set rows" using n by simp
  from n obtain i' where "leftmost_from q (ls ! y) 0 = Some i'" by auto
  then show "occurs_at q (ls ! y) i" using i leftmost_from_Some(1) by simp
qed

lemma search_spec_NotFound_iff:
  assumes "j < length ls"
  shows "(search_spec q ls j k = NotFound)
       = ((\<forall>i>k. \<not> occurs_at q (ls ! j) i)
          \<and> (\<forall>y<length ls. y \<noteq> j \<longrightarrow> (\<forall>i. \<not> occurs_at q (ls ! y) i)))"
proof -
  have a: "(leftmost_from q (ls ! j) (k + 1) = None) = (\<forall>i>k. \<not> occurs_at q (ls ! j) i)"
    unfolding leftmost_from_None_iff by (auto simp: Suc_le_eq)
  have b: "(first_row_in q ls [j + 1 ..< length ls] = None
            \<and> first_row_in q ls [0 ..< j] = None)
       = (\<forall>y<length ls. y \<noteq> j \<longrightarrow> (\<forall>i. \<not> occurs_at q (ls ! y) i))"
    unfolding first_row_in_None_iff using assms
    by (auto simp: nat_neq_iff)
  have "(search_spec q ls j k = NotFound)
      = (leftmost_from q (ls ! j) (k + 1) = None
         \<and> first_row_in q ls [j + 1 ..< length ls] = None \<and> first_row_in q ls [0 ..< j] = None)"
    by (simp add: search_spec_def split: option.splits del: upt_Suc)
  then show ?thesis using a b by blast
qed

lemma search_spec_Found:
  assumes "search_spec q ls j k = Found y x"
  shows "occurs_at q (ls ! y) x" and "(y = j \<and> k < x) \<or> j < y"
proof -
  have "occurs_at q (ls ! y) x \<and> ((y = j \<and> k < x) \<or> j < y)"
  proof (cases "leftmost_from q (ls ! j) (k + 1)")
    case (Some i)
    with assms have "y = j" "x = i" by (simp_all add: search_spec_def del: upt_Suc)
    then show ?thesis using leftmost_from_Some[OF Some] by simp
  next
    case None
    with assms have "first_row_in q ls [j + 1 ..< length ls] = Some (y, x)"
      by (auto simp: search_spec_def split: option.splits simp del: upt_Suc)
    from first_row_in_Some[OF this] show ?thesis by simp
  qed
  then show "occurs_at q (ls ! y) x" and "(y = j \<and> k < x) \<or> j < y" by simp_all
qed

lemma search_spec_FoundWrapped:
  assumes "search_spec q ls j k = FoundWrapped y x"
  shows "occurs_at q (ls ! y) x" and "y < j"
proof -
  from assms have "first_row_in q ls [0 ..< j] = Some (y, x)"
    by (auto simp: search_spec_def split: option.splits simp del: upt_Suc)
  from first_row_in_Some[OF this] show "occurs_at q (ls ! y) x" and "y < j" by simp_all
qed


lemma found_at_frame:
  "lines (found_at t q e r) = lines e"
  by (cases r) (simp_all add: found_at_def lines_adjust_scroll)

text \<open>
  Claim C3. With a non-empty query and the cursor on a line of the buffer, \<open>search\<close>
  does what the specification's search says: the origin row is examined only at
  positions after the cursor column, then the rows below in order (leftmost match, a
  plain find), then the rows above in order (a wrapped find); a plain find is an
  occurrence on the origin row after the cursor column or on a later row, a wrapped find
  an occurrence on an earlier row, so the origin row is not examined again. So when the
  query occurs on the origin row only at or before the cursor column and nowhere else,
  the result is not found; and in the buffer foo, bar, foo with the cursor at (0, 0) the
  search for foo ends at row 2, column 0, as a plain find.
\<close>

theorem search_order:
  assumes "q \<noteq> []" and "0 \<le> cursor_y e" and "cursor_y e < int (length (lines e))"
    and "0 \<le> cursor_x e"
  shows "(\<exists>e'. search t q e = Some e' \<and> lines e' = lines e
           \<and> (case search_spec q (lines e) (nat (cursor_y e)) (nat (cursor_x e)) of
                Found y x \<Rightarrow>
                  cursor_y e' = int y \<and> cursor_x e' = int x \<and> message e' = found_msg q
                  \<and> occurs_at q (lines e ! y) x
                  \<and> ((y = nat (cursor_y e) \<and> nat (cursor_x e) < x) \<or> nat (cursor_y e) < y)
              | FoundWrapped y x \<Rightarrow>
                  cursor_y e' = int y \<and> cursor_x e' = int x \<and> message e' = wrapped_msg q
                  \<and> occurs_at q (lines e ! y) x \<and> y < nat (cursor_y e)
              | NotFound \<Rightarrow>
                  cursor_y e' = cursor_y e \<and> cursor_x e' = cursor_x e
                  \<and> message e' = not_found_msg q)
           \<and> ((\<forall>i. occurs_at q (lines e ! nat (cursor_y e)) i \<longrightarrow> i \<le> nat (cursor_x e))
               \<and> (\<forall>y<length (lines e). y \<noteq> nat (cursor_y e)
                     \<longrightarrow> (\<forall>i. \<not> occurs_at q (lines e ! y) i))
               \<longrightarrow> message e' = not_found_msg q))
       \<and> (\<exists>e'. search t ''foo'' (buffer_at [''foo'', ''bar'', ''foo''] 0 0) = Some e'
             \<and> cursor_y e' = 2 \<and> cursor_x e' = 0 \<and> message e' = found_msg ''foo'')"
proof -
  let ?r = "search_spec q (lines e) (nat (cursor_y e)) (nat (cursor_x e))"
  let ?e' = "found_at t q e ?r"
  have j: "nat (cursor_y e) < length (lines e)" using assms(2,3) by simp
  have s: "search t q e = Some ?e'" using assms by (rule search_refines)
  have l: "lines ?e' = lines e" by (rule found_at_frame)
  have c: "case ?r of
                Found y x \<Rightarrow>
                  cursor_y ?e' = int y \<and> cursor_x ?e' = int x \<and> message ?e' = found_msg q
                  \<and> occurs_at q (lines e ! y) x
                  \<and> ((y = nat (cursor_y e) \<and> nat (cursor_x e) < x) \<or> nat (cursor_y e) < y)
              | FoundWrapped y x \<Rightarrow>
                  cursor_y ?e' = int y \<and> cursor_x ?e' = int x \<and> message ?e' = wrapped_msg q
                  \<and> occurs_at q (lines e ! y) x \<and> y < nat (cursor_y e)
              | NotFound \<Rightarrow>
                  cursor_y ?e' = cursor_y e \<and> cursor_x ?e' = cursor_x e
                  \<and> message ?e' = not_found_msg q"
  proof (cases ?r)
    case (Found y x)
    then show ?thesis using search_spec_Found[OF Found]
      by (simp add: found_at_def cursor_adjust_scroll adjust_scroll_def Let_def split: prod.splits)
  next
    case (FoundWrapped y x)
    then show ?thesis using search_spec_FoundWrapped[OF FoundWrapped]
      by (simp add: found_at_def cursor_adjust_scroll adjust_scroll_def Let_def split: prod.splits)
  next
    case NotFound
    then show ?thesis by (simp add: found_at_def)
  qed
  have n: "message ?e' = not_found_msg q"
    if "(\<forall>i. occurs_at q (lines e ! nat (cursor_y e)) i \<longrightarrow> i \<le> nat (cursor_x e))
               \<and> (\<forall>y<length (lines e). y \<noteq> nat (cursor_y e)
                     \<longrightarrow> (\<forall>i. \<not> occurs_at q (lines e ! y) i))"
  proof -
    from that have "?r = NotFound"
      unfolding search_spec_NotFound_iff[OF j] by (auto simp: not_le[symmetric])
    then show ?thesis by (simp add: found_at_def)
  qed
  have sc: "\<exists>e'. search t ''foo'' (buffer_at [''foo'', ''bar'', ''foo''] 0 0) = Some e'
             \<and> cursor_y e' = 2 \<and> cursor_x e' = 0 \<and> message e' = found_msg ''foo''"
    by (simp add: search_def buffer_at_def py_index_def slice_from_def py_clip_def Let_def
        upto.simps cursor_adjust_scroll adjust_scroll_def get_dimensions_def split: prod.splits)
  from s l c n sc show ?thesis by blast
qed

theorem search_order_witness:
  "''bar'' \<noteq> [] \<and> 0 \<le> cursor_y (buffer_at [''foo'', ''bar'', ''foo''] 2 0)
   \<and> cursor_y (buffer_at [''foo'', ''bar'', ''foo''] 2 0)
       < int (length (lines (buffer_at [''foo'', ''bar'', ''foo''] 2 0)))
   \<and> 0 \<le> cursor_x (buffer_at [''foo'', ''bar'', ''foo''] 2 0)
   \<and> search_spec ''bar'' [''foo'', ''bar'', ''foo''] 2 0 = FoundWrapped 1 0
   \<and> (\<exists>e'. search screen_24x80 ''bar'' (buffer_at [''foo'', ''bar'', ''foo''] 2 0) = Some e'
         \<and> lines e' = [''foo'', ''bar'', ''foo'']
         \<and> cursor_y e' = 1 \<and> cursor_x e' = 0 \<and> message e' = wrapped_msg ''bar'')"
proof -
  let ?e = "buffer_at [''foo'', ''bar'', ''foo''] 2 0"
  have sp: "search_spec ''bar'' [''foo'', ''bar'', ''foo''] 2 0 = FoundWrapped 1 0"
    by code_simp
  have h: "''bar'' \<noteq> []" "0 \<le> cursor_y ?e" "cursor_y ?e < int (length (lines ?e))"
    "0 \<le> cursor_x ?e"
    by (simp_all add: buffer_at_def)
  have v: "lines ?e = [''foo'', ''bar'', ''foo'']" "nat (cursor_y ?e) = 2" "nat (cursor_x ?e) = 0"
    by (simp_all add: buffer_at_def)
  from search_order[OF h, of screen_24x80] obtain e' where
    "search screen_24x80 ''bar'' ?e = Some e'" "lines e' = lines ?e"
    "case search_spec ''bar'' (lines ?e) (nat (cursor_y ?e)) (nat (cursor_x ?e)) of
                Found y x \<Rightarrow>
                  cursor_y e' = int y \<and> cursor_x e' = int x \<and> message e' = found_msg ''bar''
                  \<and> occurs_at ''bar'' (lines ?e ! y) x
                  \<and> ((y = nat (cursor_y ?e) \<and> nat (cursor_x ?e) < x) \<or> nat (cursor_y ?e) < y)
              | FoundWrapped y x \<Rightarrow>
                  cursor_y e' = int y \<and> cursor_x e' = int x \<and> message e' = wrapped_msg ''bar''
                  \<and> occurs_at ''bar'' (lines ?e ! y) x \<and> y < nat (cursor_y ?e)
              | NotFound \<Rightarrow>
                  cursor_y e' = cursor_y ?e \<and> cursor_x e' = cursor_x ?e
                  \<and> message e' = not_found_msg ''bar''"
    by blast
  then have "search screen_24x80 ''bar'' ?e = Some e' \<and> lines e' = [''foo'', ''bar'', ''foo'']
         \<and> cursor_y e' = 1 \<and> cursor_x e' = 0 \<and> message e' = wrapped_msg ''bar''"
    unfolding v sp by simp
  then show ?thesis using h sp by blast
qed

text \<open>
  Claim C9. For a non-empty query that occurs neither on the cursor's row after the
  cursor column nor on any other row, \<open>search\<close> changes the message and its type (to the
  not-found error) and nothing else: lines, cursor, scroll offsets, modified flag and
  file name stay as they were.
\<close>

theorem search_not_found_frame:
  assumes "q \<noteq> []" and "0 \<le> cursor_y e" and "cursor_y e < int (length (lines e))"
    and "0 \<le> cursor_x e"
    and "\<forall>i>nat (cursor_x e). \<not> occurs_at q (lines e ! nat (cursor_y e)) i"
    and "\<forall>y<length (lines e). y \<noteq> nat (cursor_y e) \<longrightarrow> (\<forall>i. \<not> occurs_at q (lines e ! y) i)"
  shows "search t q e = Some (e\<lparr>message := not_found_msg q, message_type := ''error''\<rparr>)"
proof -
  have j: "nat (cursor_y e) < length (lines e)" using assms(2,3) by simp
  have "search_spec q (lines e) (nat (cursor_y e)) (nat (cursor_x e)) = NotFound"
    unfolding search_spec_NotFound_iff[OF j] using assms(5,6) by blast
  then show ?thesis
    using search_refines[OF assms(1-4), of t] by (simp add: found_at_def)
qed


theorem search_not_found_frame_witness:
  "''fo'' \<noteq> [] \<and> 0 \<le> cursor_y (buffer_at [''xfo''] 0 1)
   \<and> cursor_y (buffer_at [''xfo''] 0 1) < int (length (lines (buffer_at [''xfo''] 0 1)))
   \<and> 0 \<le> cursor_x (buffer_at [''xfo''] 0 1)
   \<and> occurs_at ''fo'' ''xfo'' 1
   \<and> \<not> (\<exists>i>nat (cursor_x (buffer_at [''xfo''] 0 1)).
           occurs_at ''fo'' (lines (buffer_at [''xfo''] 0 1)
                               ! nat (cursor_y (buffer_at [''xfo''] 0 1))) i)
   \<and> search screen_24x80 ''fo'' (buffer_at [''xfo''] 0 1)
       = Some ((buffer_at [''xfo''] 0 1)
                 \<lparr>message := not_found_msg ''fo'', message_type := ''error''\<rparr>)"
proof -
  let ?e = "buffer_at [''xfo''] 0 1"
  have h: "''fo'' \<noteq> []" "0 \<le> cursor_y ?e" "cursor_y ?e < int (length (lines ?e))"
    "0 \<le> cursor_x ?e"
    by (simp_all add: buffer_at_def)
  have a: "\<forall>i>nat (cursor_x ?e). \<not> occurs_at ''fo'' (lines ?e ! nat (cursor_y ?e)) i"
    by (simp add: buffer_at_def occurs_at_def)
  have b: "\<forall>y<length (lines ?e). y \<noteq> nat (cursor_y ?e)
             \<longrightarrow> (\<forall>i. \<not> occurs_at ''fo'' (lines ?e ! y) i)"
    by (simp add: buffer_at_def)
  have o: "occurs_at ''fo'' ''xfo'' 1" by (simp add: occurs_at_def)
  from search_not_found_frame[OF h a b, of screen_24x80] h a o show ?thesis by blast
qed

subsection \<open>Leaving the editor\<close>

lemma save_file_cases:
  "save_file fname w e =
     (if truthy fname then
        (case write_error w (the fname) of
           None \<Rightarrow>
             (True,
              e\<lparr>filename := fname, modified := False,
                message := ''Wrote '' @ str_nat (length (lines e)) @ '' lines to '' @ the fname,
                message_type := ''success''\<rparr>,
              w\<lparr>files := (files w)(the fname \<mapsto> file_text (lines e))\<rparr>)
         | Some err \<Rightarrow>
             (False,
              e\<lparr>filename := fname,
                message := ''Error writing '' @ the fname @ '': '' @ err,
                message_type := ''error''\<rparr>,
              w))
      else if \<not> truthy (filename e) then (False, e, w)
      else
        (case write_error w (the (filename e)) of
           None \<Rightarrow>
             (True,
              e\<lparr>modified := False,
                message := ''Wrote '' @ str_nat (length (lines e)) @ '' lines to ''
                           @ the (filename e),
                message_type := ''success''\<rparr>,
              w\<lparr>files := (files w)(the (filename e) \<mapsto> file_text (lines e))\<rparr>)
         | Some err \<Rightarrow>
             (False,
              e\<lparr>message := ''Error writing '' @ the (filename e) @ '': '' @ err,
                message_type := ''error''\<rparr>,
              w)))"
  by (simp add: save_file_def Let_def split: option.splits)

lemma save_file_lines: "save_file fname w e = (ok, e', w') \<Longrightarrow> lines e' = lines e"
  unfolding save_file_cases by (cases "write_error w (the fname)";
    cases "write_error w (the (filename e))"; cases "truthy fname"; cases "truthy (filename e)")
    auto

lemma save_file_failed:
  "truthy fname \<Longrightarrow> save_file fname w e = (False, e', w') \<Longrightarrow>
     w' = w \<and> message_type e' = ''error''"
  unfolding save_file_cases by (cases "write_error w (the fname)") auto

lemma confirm_exit_loop_answer:
  "confirm_exit_loop t w e keys =
     (case first_answer keys of
        None \<Rightarrow> None
      | Some k \<Rightarrow>
          if k = 121 \<or> k = 89 then
            (if truthy (prompt_save_filename t e)
             then Some (save_file (prompt_save_filename t e) w e)
             else Some (False, e, w))
          else if k = 110 \<or> k = 78 then Some (True, e, w)
          else Some (False, e, w))"
proof (induction keys)
  case Nil
  then show ?case by (simp add: first_answer_def)
next
  case (Cons key keys)
  show ?case
  proof (cases "is_answer key")
    case True
    then have "first_answer (key # keys) = Some key" by (simp add: first_answer_def)
    then show ?thesis using True
      by (auto simp: is_answer_def Let_def split: prod.splits)
  next
    case False
    then have "first_answer (key # keys) = first_answer keys" by (simp add: first_answer_def)
    then show ?thesis using False Cons by (simp add: is_answer_def)
  qed
qed

text \<open>
  Claim C5. Exit (Ctrl+X) on an unmodified buffer leaves the loop at once. On a modified
  buffer the first answer key decides: \<open>n\<close> or \<open>N\<close> leaves; \<open>c\<close>, \<open>C\<close> or ESC stays with the
  state as it was; \<open>y\<close> or \<open>Y\<close> leaves when the prompt gives a file name and the save
  succeeds, and stays when there is no file name (state as it was) or the save fails
  (lines and files as they were, an error message set). The loop is left in no other
  case.
\<close>

theorem exit_policy:
  "(\<not> modified (ed s) \<longrightarrow> step t 24 s = Break s)
   \<and> (modified (ed s) \<and> first_answer (answers t) = None \<longrightarrow> step t 24 s = Blocked)
   \<and> (modified (ed s) \<and> first_answer (answers t) = Some k \<and> (k = 110 \<or> k = 78)
        \<longrightarrow> step t 24 s = Break s)
   \<and> (modified (ed s) \<and> first_answer (answers t) = Some k \<and> (k = 99 \<or> k = 67 \<or> k = 27)
        \<longrightarrow> step t 24 s = Continue s)
   \<and> (modified (ed s) \<and> first_answer (answers t) = Some k \<and> (k = 121 \<or> k = 89)
        \<and> \<not> truthy (prompt_save_filename t (ed s))
        \<longrightarrow> step t 24 s = Continue s)
   \<and> (modified (ed s) \<and> first_answer (answers t) = Some k \<and> (k = 121 \<or> k = 89)
        \<and> truthy (prompt_save_filename t (ed s))
        \<and> save_file (prompt_save_filename t (ed s)) (fs s) (ed s) = (True, e', w')
        \<longrightarrow> step t 24 s = Break (s\<lparr>ed := e', fs := w'\<rparr>))
   \<and> (modified (ed s) \<and> first_answer (answers t) = Some k \<and> (k = 121 \<or> k = 89)
        \<and> truthy (prompt_save_filename t (ed s))
        \<and> save_file (prompt_save_filename t (ed s)) (fs s) (ed s) = (False, e', w')
        \<longrightarrow> step t 24 s = Continue (s\<lparr>ed := e'\<rparr>) \<and> lines e' = lines (ed s)
            \<and> w' = fs s \<and> message_type e' = ''error'')
   \<and> (step t 24 s = Break s'
        \<longrightarrow> \<not> modified (ed s)
            \<or> first_answer (answers t) = Some 110 \<or> first_answer (answers t) = Some 78
            \<or> ((first_answer (answers t) = Some 121 \<or> first_answer (answers t) = Some 89)
                \<and> truthy (prompt_save_filename t (ed s))
                \<and> fst (save_file (prompt_save_filename t (ed s)) (fs s) (ed s))))"
proof -
  let ?f = "prompt_save_filename t (ed s)"
  have st: "step t 24 s =
      (case confirm_exit t (fs s) (ed s) of
         None \<Rightarrow> Blocked
       | Some (leave, e', w') \<Rightarrow>
           if leave then Break (s\<lparr>ed := e', fs := w'\<rparr>)
           else Continue (s\<lparr>ed := e', fs := w'\<rparr>))"
    by (simp add: step_def)
  have ce: "modified (ed s) \<Longrightarrow> confirm_exit t (fs s) (ed s) =
     (case first_answer (answers t) of
        None \<Rightarrow> None
      | Some k \<Rightarrow>
          if k = 121 \<or> k = 89 then
            (if truthy ?f then Some (save_file ?f (fs s) (ed s))
             else Some (False, ed s, fs s))
          else if k = 110 \<or> k = 78 then Some (True, ed s, fs s)
          else Some (False, ed s, fs s))"
    by (simp add: confirm_exit_def confirm_exit_loop_answer)
  have 1: "\<not> modified (ed s) \<longrightarrow> step t 24 s = Break s"
    by (simp add: st confirm_exit_def)
  have 2: "modified (ed s) \<and> first_answer (answers t) = None \<longrightarrow> step t 24 s = Blocked"
    by (simp add: st ce)
  have 3: "modified (ed s) \<and> first_answer (answers t) = Some k \<and> (k = 110 \<or> k = 78)
        \<longrightarrow> step t 24 s = Break s"
    by (auto simp: st ce)
  have 4: "modified (ed s) \<and> first_answer (answers t) = Some k \<and> (k = 99 \<or> k = 67 \<or> k = 27)
        \<longrightarrow> step t 24 s = Continue s"
    by (auto simp: st ce)
  have 5: "modified (ed s) \<and> first_answer (answers t) = Some k \<and> (k = 121 \<or> k = 89)
        \<and> \<not> truthy ?f \<longrightarrow> step t 24 s = Continue s"
    by (auto simp: st ce)
  have 6: "modified (ed s) \<and> first_answer (answers t) = Some k \<and> (k = 121 \<or> k = 89)
        \<and> truthy ?f \<and> save_file ?f (fs s) (ed s) = (True, e', w')
        \<longrightarrow> step t 24 s = Break (s\<lparr>ed := e', fs := w'\<rparr>)"
    by (auto simp: st ce)
  have 7: "modified (ed s) \<and> first_answer (answers t) = Some k \<and> (k = 121 \<or> k = 89)
        \<and> truthy ?f \<and> save_file ?f (fs s) (ed s) = (False, e', w')
        \<longrightarrow> step t 24 s = Continue (s\<lparr>ed := e'\<rparr>) \<and> lines e' = lines (ed s)
            \<and> w' = fs s \<and> message_type e' = ''error''"
  proof (intro impI)
    assume a: "modified (ed s) \<and> first_answer (answers t) = Some k \<and> (k = 121 \<or> k = 89)
        \<and> truthy ?f \<and> save_file ?f (fs s) (ed s) = (False, e', w')"
    then have sf: "save_file ?f (fs s) (ed s) = (False, e', w')" and tr: "truthy ?f" by simp_all
    from save_file_failed[OF tr sf] have w: "w' = fs s" "message_type e' = ''error''"
      by simp_all
    from save_file_lines[OF sf] have l: "lines e' = lines (ed s)" .
    have "step t 24 s = Continue (s\<lparr>ed := e', fs := w'\<rparr>)"
      using a by (auto simp: st ce)
    then show "step t 24 s = Continue (s\<lparr>ed := e'\<rparr>) \<and> lines e' = lines (ed s)
            \<and> w' = fs s \<and> message_type e' = ''error''"
      using w l by simp
  qed
  have 8: "step t 24 s = Break s'
        \<longrightarrow> \<not> modified (ed s)
            \<or> first_answer (answers t) = Some 110 \<or> first_answer (answers t) = Some 78
            \<or> ((first_answer (answers t) = Some 121 \<or> first_answer (answers t) = Some 89)
                \<and> truthy ?f \<and> fst (save_file ?f (fs s) (ed s)))"
  proof (cases "modified (ed s)")
    case False
    then show ?thesis by simp
  next
    case True
    show ?thesis
    proof (cases "first_answer (answers t)")
      case None
      then show ?thesis using True by (simp add: st ce)
    next
      case (Some a)
      obtain ok e1 w1 where r: "save_file ?f (fs s) (ed s) = (ok, e1, w1)"
        by (cases "save_file ?f (fs s) (ed s)")
      show ?thesis using True Some r by (auto simp: st ce split: if_splits)
    qed
  qed
  from 1 2 3 4 5 6 7 8 show ?thesis by (intro conjI)
qed


theorem exit_policy_witness:
  "modified (ed unsaved)
   \<and> first_answer (answers (answering [120, 121] ''ro'')) = Some 121
   \<and> truthy (prompt_save_filename (answering [120, 121] ''ro'') (ed unsaved))
   \<and> \<not> fst (save_file (Some ''ro'') (fs unsaved) (ed unsaved))
   \<and> step (answering [120, 121] ''ro'') 24 unsaved
       = Continue (unsaved\<lparr>ed := fst (snd (save_file (Some ''ro'') (fs unsaved) (ed unsaved)))\<rparr>)
   \<and> lines (fst (snd (save_file (Some ''ro'') (fs unsaved) (ed unsaved))))
       = [''hello'', ''world'']
   \<and> first_answer (answers (answering [120, 78] [])) = Some 78
   \<and> step (answering [120, 78] []) 24 unsaved = Break unsaved"
proof -
  let ?t = "answering [120, 121] ''ro''"
  let ?r = "save_file (Some ''ro'') (fs unsaved) (ed unsaved)"
  have m: "modified (ed unsaved)" by (simp add: unsaved_def)
  have a: "first_answer (answers ?t) = Some 121"
    by (simp add: first_answer_def is_answer_def answering_def)
  have f: "prompt_save_filename ?t (ed unsaved) = Some ''ro''"
    by (simp add: prompt_save_filename_def answering_def strip_def py_isspace_def LF_def CR_def)
  have nok: "\<not> fst ?r" by (simp add: save_file_def unsaved_def Let_def)
  then have r: "save_file (prompt_save_filename ?t (ed unsaved)) (fs unsaved) (ed unsaved)
      = (False, fst (snd ?r), snd (snd ?r))"
    unfolding f by (cases ?r) simp
  have l: "lines (ed unsaved) = [''hello'', ''world'']" by (simp add: unsaved_def buffer_at_def)
  have a2: "first_answer (answers (answering [120, 78] [])) = Some 78"
    by (simp add: first_answer_def is_answer_def answering_def)
  from exit_policy[of unsaved ?t 121 "fst (snd ?r)" "snd (snd ?r)"]
    exit_policy[of unsaved "answering [120, 78] []" 78]
    m a f nok r l a2
  show ?thesis by simp
qed


subsection \<open>The keys that keep the cursor inside the buffer\<close>

text \<open>
  The editor starts with the cursor inside the buffer, and every key but Ctrl+U (paste)
  keeps it there.
\<close>

lemma cursor_in_bounds_adjust_scroll [simp]:
  "cursor_in_bounds (adjust_scroll t e) = cursor_in_bounds e"
  by (simp add: cursor_in_bounds_def lines_adjust_scroll cursor_adjust_scroll)

lemma cursor_in_bounds_index:
  "cursor_in_bounds e \<Longrightarrow> py_index (lines e) (cursor_y e) = Some (nat (cursor_y e))"
  by (simp add: cursor_in_bounds_def py_index_in_range)

lemma move_cursor_in_bounds:
  assumes "lines e \<noteq> []" and "move_cursor t dy dx e = Some e'"
  shows "cursor_in_bounds e'"
proof -
  define cy where "cy = max 0 (min (int (length (lines e)) - 1) (cursor_y e + dy))"
  have cy: "0 \<le> cy" "cy < int (length (lines e))" using assms(1) by (simp_all add: cy_def)
  then have i: "py_index (lines e) cy = Some (nat cy)" by (simp add: py_index_in_range)
  have "e' = adjust_scroll t (e\<lparr>message := [], cursor_y := cy,
      cursor_x := max 0 (min (int (length (lines e ! nat cy))) (cursor_x e + dx))\<rparr>)"
    using assms(2) i by (simp add: move_cursor_def Let_def cy_def[symmetric])
  then show ?thesis using cy assms(1)
    by (simp add: cursor_in_bounds_def lines_adjust_scroll cursor_adjust_scroll)
qed

lemma insert_char_in_bounds:
  assumes "cursor_in_bounds e" and "ch \<noteq> []" and "insert_char t ch e = Some e'"
  shows "cursor_in_bounds e'"
proof -
  let ?j = "nat (cursor_y e)"
  have b: "?j < length (lines e)" "0 \<le> cursor_x e" "nat (cursor_x e) \<le> length (lines e ! ?j)"
    using assms(1) by (auto simp: cursor_in_bounds_def)
  have "1 \<le> int (length ch)" using assms(2) by (cases ch) simp_all
  then show ?thesis
    using assms(1,3) b
    by (auto simp: insert_char_def cursor_in_bounds_index Let_def cursor_in_bounds_def
        slice_to_def slice_from_def py_clip_nonneg lines_adjust_scroll cursor_adjust_scroll)
qed

lemma insert_newline_in_bounds:
  assumes "cursor_in_bounds e" and "insert_newline t e = Some e'"
  shows "cursor_in_bounds e'"
proof -
  let ?j = "nat (cursor_y e)"
  have b: "?j < length (lines e)" "0 \<le> cursor_y e"
    using assms(1) by (auto simp: cursor_in_bounds_def)
  define ls1 where "ls1 = (lines e)[?j := slice_to (lines e ! ?j) (cursor_x e)]"
  define ls2 where "ls2 = py_insert ls1 (cursor_y e + 1) (slice_from (lines e ! ?j) (cursor_x e))"
  have l: "length ls2 = Suc (length (lines e))"
    by (simp add: ls2_def ls1_def py_insert_def Let_def)
  have "e' = adjust_scroll t (e\<lparr>lines := ls2, cursor_y := cursor_y e + 1, cursor_x := 0,
                    modified := True, message := []\<rparr>)"
    using assms(2) by (simp add: insert_newline_def cursor_in_bounds_index[OF assms(1)] Let_def
        ls1_def ls2_def)
  then show ?thesis using l b
    by (auto simp: cursor_in_bounds_def lines_adjust_scroll cursor_adjust_scroll)
qed

lemma cursor_in_boundsD:
  assumes "cursor_in_bounds e"
  shows "lines e \<noteq> []" and "0 \<le> cursor_y e" and "nat (cursor_y e) < length (lines e)"
    and "0 \<le> cursor_x e" and "nat (cursor_x e) \<le> length (lines e ! nat (cursor_y e))"
  using assms by (auto simp: cursor_in_bounds_def)

lemma delete_char_in_bounds:
  assumes "cursor_in_bounds e" and "delete_char e = Some e'"
  shows "cursor_in_bounds e'"
proof -
  note b = cursor_in_boundsD[OF assms(1)]
  let ?j = "nat (cursor_y e)"
  show ?thesis
  proof (cases "cursor_x e < int (length (lines e ! ?j))")
    case True
    then have "e' = e\<lparr>lines := (lines e)
        [?j := slice_to (lines e ! ?j) (cursor_x e) @ slice_from (lines e ! ?j) (cursor_x e + 1)],
        modified := True, message := []\<rparr>"
      using assms by (simp add: delete_char_def cursor_in_bounds_index Let_def)
    then show ?thesis using b True
      by (auto simp: cursor_in_bounds_def slice_to_def slice_from_def py_clip_nonneg)
  next
    case False
    show ?thesis
    proof (cases "cursor_y e < int (length (lines e)) - 1")
      case True
      then have k: "py_index (lines e) (cursor_y e + 1) = Some (Suc ?j)"
        using b by (simp add: py_index_in_range nat_add_distrib)
      have k': "py_pop ((lines e)[?j := lines e ! ?j @ lines e ! Suc ?j]) (cursor_y e + 1)
          = Some (take (Suc ?j) ((lines e)[?j := lines e ! ?j @ lines e ! Suc ?j])
                  @ drop (Suc (Suc ?j)) ((lines e)[?j := lines e ! ?j @ lines e ! Suc ?j]))"
        using b True by (simp add: py_pop_def py_index_in_range nat_add_distrib)
      have "e' = e\<lparr>lines := take (Suc ?j) ((lines e)[?j := lines e ! ?j @ lines e ! Suc ?j])
                  @ drop (Suc (Suc ?j)) ((lines e)[?j := lines e ! ?j @ lines e ! Suc ?j]),
                 modified := True, message := []\<rparr>"
        using assms False True k k'
        by (simp add: delete_char_def cursor_in_bounds_index Let_def)
      then show ?thesis using b False True
        by (auto simp: cursor_in_bounds_def nth_append)
    next
      case False
      with \<open>\<not> cursor_x e < int (length (lines e ! ?j))\<close>
      have "e' = e\<lparr>message := []\<rparr>"
        using assms by (simp add: delete_char_def cursor_in_bounds_index Let_def)
      then show ?thesis using assms(1) by (simp add: cursor_in_bounds_def)
    qed
  qed
qed

lemma backspace_in_bounds:
  assumes "cursor_in_bounds e" and "backspace t e = Some e'"
  shows "cursor_in_bounds e'"
proof -
  note b = cursor_in_boundsD[OF assms(1)]
  let ?j = "nat (cursor_y e)"
  show ?thesis
  proof (cases "cursor_x e > 0")
    case True
    then have "e' = adjust_scroll t (e\<lparr>lines := (lines e)
        [?j := slice_to (lines e ! ?j) (cursor_x e - 1) @ slice_from (lines e ! ?j) (cursor_x e)],
        cursor_x := cursor_x e - 1, modified := True, message := []\<rparr>)"
      using assms by (simp add: backspace_def cursor_in_bounds_index Let_def)
    then show ?thesis using b True
      by (auto simp: cursor_in_bounds_def slice_to_def slice_from_def py_clip_nonneg
          lines_adjust_scroll cursor_adjust_scroll)
  next
    case False
    note nx = False
    show ?thesis
    proof (cases "cursor_y e > 0")
      case True
      define p where "p = ?j - 1"
      have p: "Suc p = ?j" "p < length (lines e)" using True b by (simp_all add: p_def)
      have ip: "py_index (lines e) (cursor_y e - 1) = Some p"
        using True b by (simp add: py_index_in_range p_def nat_diff_distrib)
      define ls1 where "ls1 = (lines e)[p := lines e ! p @ lines e ! ?j]"
      have pp: "py_pop ls1 (cursor_y e) = Some (take ?j ls1 @ drop (Suc ?j) ls1)"
        using b by (simp add: py_pop_def py_index_in_range ls1_def)
      define ls2 where "ls2 = take ?j ls1 @ drop (Suc ?j) ls1"
      have "e' = adjust_scroll t (e\<lparr>lines := ls2,
          cursor_y := cursor_y e - 1, cursor_x := int (length (lines e ! p)),
          modified := True, message := []\<rparr>)"
        using assms nx True ip pp
        by (simp add: backspace_def cursor_in_bounds_index Let_def ls1_def ls2_def)
      moreover have "nat (cursor_y e - 1) = p" using True by (simp add: p_def nat_diff_distrib)
      moreover have "ls2 ! p = lines e ! p @ lines e ! ?j"
        using p b by (simp add: nth_append ls1_def ls2_def)
      moreover have "int (length ls2) = int (length (lines e)) - 1"
        using b by (simp add: ls1_def ls2_def)
      moreover have "cursor_y e < int (length (lines e))"
        using assms(1) by (simp add: cursor_in_bounds_def)
      moreover have "2 \<le> length (lines e)" using p b(3) by arith
      ultimately show ?thesis using True
        by (auto simp: cursor_in_bounds_def lines_adjust_scroll cursor_adjust_scroll)
    next
      case False
      with nx have "e' = adjust_scroll t (e\<lparr>message := []\<rparr>)"
        using assms by (simp add: backspace_def)
      then show ?thesis using assms(1)
        by (simp add: cursor_in_bounds_def lines_adjust_scroll cursor_adjust_scroll)
    qed
  qed
qed


lemma search_spec_Found_row:
  assumes "j < length ls" and "search_spec q ls j k = Found y x"
  shows "y < length ls"
proof (cases "leftmost_from q (ls ! j) (k + 1)")
  case (Some i)
  with assms show ?thesis by (simp add: search_spec_def del: upt_Suc)
next
  case None
  with assms(2) have "first_row_in q ls [j + 1 ..< length ls] = Some (y, x)"
    by (auto simp: search_spec_def split: option.splits simp del: upt_Suc)
  from first_row_in_Some(1)[OF this] show ?thesis by simp
qed

lemma search_in_bounds:
  assumes "cursor_in_bounds e" and "search t q e = Some e'"
  shows "cursor_in_bounds e'"
proof (cases "q = []")
  case True
  with assms show ?thesis by (simp add: search_def)
next
  case False
  note b = cursor_in_boundsD[OF assms(1)]
  have h: "0 \<le> cursor_y e" "cursor_y e < int (length (lines e))" "0 \<le> cursor_x e"
    using assms(1) by (simp_all add: cursor_in_bounds_def)
  let ?r = "search_spec q (lines e) (nat (cursor_y e)) (nat (cursor_x e))"
  from search_refines[OF False h, of t] assms(2) have e': "e' = found_at t q e ?r" by simp
  show ?thesis
  proof (cases ?r)
    case (Found y x)
    from search_spec_Found(1)[OF Found] have "x \<le> length (lines e ! y)"
      by (simp add: occurs_at_def)
    moreover from search_spec_Found_row[OF b(3) Found] have "y < length (lines e)" .
    ultimately show ?thesis using b(1)
      by (simp add: e' Found found_at_def cursor_in_bounds_def lines_adjust_scroll
          cursor_adjust_scroll)
  next
    case (FoundWrapped y x)
    from search_spec_FoundWrapped[OF FoundWrapped] have "x \<le> length (lines e ! y)"
      and "y < length (lines e)" using b(3) by (simp_all add: occurs_at_def)
    then show ?thesis using b(1)
      by (simp add: e' FoundWrapped found_at_def cursor_in_bounds_def lines_adjust_scroll
          cursor_adjust_scroll)
  next
    case NotFound
    then show ?thesis using assms(1) by (simp add: e' found_at_def cursor_in_bounds_def)
  qed
qed

lemma cut_line_in_bounds:
  assumes "cursor_in_bounds (ed s)" and "cut_line s = Continue s'"
  shows "cursor_in_bounds (ed s')"
proof -
  note b = cursor_in_boundsD[OF assms(1)]
  note i = cursor_in_bounds_index[OF assms(1)]
  define j where "j = nat (cursor_y (ed s))"
  define ls1 where "ls1 = take j (lines (ed s)) @ drop (Suc j) (lines (ed s))"
  define ls2 where "ls2 = (if ls1 = [] then [[]] else ls1)"
  define cy where "cy = (if cursor_y (ed s) \<ge> int (length ls2) then int (length ls2) - 1
                         else cursor_y (ed s))"
  have "cut_line s = Continue (s\<lparr>cut_buffer := lines (ed s) ! j,
      ed := (ed s)\<lparr>lines := ls2, cursor_y := cy, cursor_x := 0, modified := True,
                    message := ''Cut line'', message_type := ''info''\<rparr>\<rparr>)"
    unfolding cut_line_def Let_def i cy_def ls2_def ls1_def j_def using b(1) by simp
  with assms(2) have "s' = s\<lparr>cut_buffer := lines (ed s) ! j,
      ed := (ed s)\<lparr>lines := ls2, cursor_y := cy, cursor_x := 0, modified := True,
                    message := ''Cut line'', message_type := ''info''\<rparr>\<rparr>"
    by simp
  then have e: "ed s' = (ed s)\<lparr>lines := ls2, cursor_y := cy, cursor_x := 0, modified := True,
                    message := ''Cut line'', message_type := ''info''\<rparr>"
    by simp
  have l2: "ls2 \<noteq> []" "0 < int (length ls2)" by (auto simp: ls2_def)
  have cy: "0 \<le> cy" "cy < int (length ls2)" using l2 b(2) by (auto simp: cy_def)
  show ?thesis unfolding e using l2 cy by (simp add: cursor_in_bounds_def)
qed

lemma line_start_in_bounds:
  "cursor_in_bounds (ed s) \<Longrightarrow> line_start t s = Continue s' \<Longrightarrow> cursor_in_bounds (ed s')"
  by (auto simp: line_start_def cursor_in_bounds_def lines_adjust_scroll cursor_adjust_scroll)

lemma line_end_in_bounds:
  "cursor_in_bounds (ed s) \<Longrightarrow> line_end t s = Continue s' \<Longrightarrow> cursor_in_bounds (ed s')"
  by (auto simp: line_end_def cursor_in_bounds_index Let_def cursor_in_bounds_def
      lines_adjust_scroll cursor_adjust_scroll)

lemma go_on_in_bounds:
  "go_on s r = Continue s' \<Longrightarrow> (\<And>e'. r = Some e' \<Longrightarrow> cursor_in_bounds e') \<Longrightarrow>
     cursor_in_bounds (ed s')"
  by (cases r) (auto simp: go_on_def)

lemma key_left_in_bounds:
  assumes "cursor_in_bounds (ed s)" and "key_left t s = Continue s'"
  shows "cursor_in_bounds (ed s')"
proof -
  note b = cursor_in_boundsD[OF assms(1)]
  show ?thesis
  proof (cases "cursor_x (ed s) > 0")
    case True
    then have "go_on s (move_cursor t 0 (- 1) (ed s)) = Continue s'"
      using assms(2) by (simp add: key_left_def Let_def)
    then show ?thesis using move_cursor_in_bounds[OF b(1)] by (rule go_on_in_bounds)
  next
    case False
    show ?thesis
    proof (cases "cursor_y (ed s) > 0")
      case True
      have i: "py_index (lines (ed s)) (cursor_y (ed s) - 1) = Some (nat (cursor_y (ed s) - 1))"
        using True b by (simp add: py_index_in_range)
      have "cursor_y (ed s) - 1 < int (length (lines (ed s)))" using b by simp
      then show ?thesis
        using assms(2) False True i b(1)
        by (auto simp: key_left_def Let_def cursor_in_bounds_def lines_adjust_scroll
            cursor_adjust_scroll)
    next
      case False
      with \<open>\<not> cursor_x (ed s) > 0\<close> assms show ?thesis by (simp add: key_left_def Let_def)
    qed
  qed
qed

lemma key_right_in_bounds:
  assumes "cursor_in_bounds (ed s)" and "key_right t s = Continue s'"
  shows "cursor_in_bounds (ed s')"
proof -
  note b = cursor_in_boundsD[OF assms(1)]
  note i = cursor_in_bounds_index[OF assms(1)]
  show ?thesis
  proof (cases "cursor_x (ed s) < int (length (lines (ed s) ! nat (cursor_y (ed s))))")
    case True
    then have "go_on s (move_cursor t 0 1 (ed s)) = Continue s'"
      using assms(2) i by (simp add: key_right_def Let_def)
    then show ?thesis using move_cursor_in_bounds[OF b(1)] by (rule go_on_in_bounds)
  next
    case False
    then show ?thesis
      using assms i b
      by (auto simp: key_right_def Let_def cursor_in_bounds_def lines_adjust_scroll
          cursor_adjust_scroll split: if_splits)
  qed
qed


lemma save_file_cursor:
  assumes "save_file fname w e = (ok, e', w')"
  shows "cursor_in_bounds e' = cursor_in_bounds e"
proof -
  have "lines e' = lines e \<and> cursor_y e' = cursor_y e \<and> cursor_x e' = cursor_x e"
    using assms unfolding save_file_cases
    by (cases "write_error w (the fname)"; cases "write_error w (the (filename e))";
        cases "truthy fname"; cases "truthy (filename e)") auto
  then show ?thesis by (simp add: cursor_in_bounds_def)
qed

lemma confirm_exit_cursor:
  assumes "confirm_exit t w e = Some (leave, e', w')"
  shows "cursor_in_bounds e' = cursor_in_bounds e"
proof (cases "modified e")
  case False
  with assms show ?thesis by (simp add: confirm_exit_def)
next
  case True
  show ?thesis
  proof (cases "first_answer (answers t)")
    case None
    with assms True show ?thesis by (simp add: confirm_exit_def confirm_exit_loop_answer)
  next
    case (Some k)
    obtain ok e1 w1 where r: "save_file (prompt_save_filename t e) w e = (ok, e1, w1)"
      by (cases "save_file (prompt_save_filename t e) w e")
    from save_file_cursor[OF r] assms True Some r show ?thesis
      by (auto simp: confirm_exit_def confirm_exit_loop_answer split: if_splits)
  qed
qed

lemmas key_codes = KEY_DOWN_def KEY_UP_def KEY_LEFT_def KEY_RIGHT_def KEY_HOME_def
  KEY_BACKSPACE_def KEY_DC_def KEY_NPAGE_def KEY_PPAGE_def KEY_ENTER_def KEY_END_def

lemma step_keeps_cursor_in_bounds:
  assumes "cursor_in_bounds (ed s)" and "key \<noteq> 21"
    and "step t key s = Continue s' \<or> step t key s = Break s'"
  shows "cursor_in_bounds (ed s')"
proof -
  note ne = cursor_in_boundsD(1)[OF assms(1)]
  note mv = move_cursor_in_bounds[OF ne]
  have g: "cursor_in_bounds (ed s')"
    if "go_on s r = Continue s' \<or> go_on s r = Break s'"
      and "\<And>e'. r = Some e' \<Longrightarrow> cursor_in_bounds e'" for r
    using that by (cases r) (auto simp: go_on_def)
  consider (k_exit) "key = 24" | (k_save) "key = 15" | (k_find) "key = 23" | (k_cut) "key = 11"
    | (k_help) "key = 7" | (k_home) "key = 1 \<or> key = KEY_HOME" | (k_end) "key = 5 \<or> key = KEY_END"
    | (k_up) "key = KEY_UP" | (k_down) "key = KEY_DOWN" | (k_left) "key = KEY_LEFT"
    | (k_right) "key = KEY_RIGHT" | (k_ppage) "key = KEY_PPAGE" | (k_npage) "key = KEY_NPAGE"
    | (k_enter) "key = KEY_ENTER \<or> key = 10 \<or> key = 13"
    | (k_bs) "key = KEY_BACKSPACE \<or> key = 127 \<or> key = 8" | (k_del) "key = KEY_DC"
    | (k_tab) "key = 9"
    | (k_char) "32 \<le> key" "key \<le> 126"
    | (k_other) "key \<notin> {24, 15, 23, 11, 21, 7, 1, 5, KEY_UP, KEY_DOWN, KEY_LEFT, KEY_RIGHT,
         KEY_HOME, KEY_END, KEY_PPAGE, KEY_NPAGE, KEY_ENTER, 10, 13, KEY_BACKSPACE, 127, 8,
         KEY_DC, 9}" "\<not> (32 \<le> key \<and> key \<le> 126)"
    using assms(2) by fastforce
  then show ?thesis
  proof cases
    case k_exit
    then show ?thesis using assms(1,3) confirm_exit_cursor[of t "fs s" "ed s"]
      by (auto simp: step_def key_codes split: option.splits if_splits)
  next
    case k_save
    obtain ok e1 w1 where r: "save_file (prompt_save_filename t (ed s)) (fs s) (ed s) = (ok, e1, w1)"
      by (cases "save_file (prompt_save_filename t (ed s)) (fs s) (ed s)")
    from save_file_cursor[OF r] k_save assms(1,3) r show ?thesis
      by (auto simp: step_def Let_def split: if_splits)
  next
    case k_find
    then have "step t key s = (if truthy (prompt_search t)
        then go_on s (search t (the (prompt_search t)) (ed s)) else Continue s)"
      by (simp add: step_def Let_def)
    then show ?thesis using assms(1,3) g[of "search t (the (prompt_search t)) (ed s)"]
        search_in_bounds[OF assms(1)]
      by (auto split: if_splits)
  next
    case k_cut
    then have "step t key s = cut_line s" by (simp add: step_def)
    moreover have "cut_line s \<noteq> Break s'" by (auto simp: cut_line_def Let_def split: option.splits)
    ultimately show ?thesis using assms(3) cut_line_in_bounds[OF assms(1)] by auto
  next
    case k_help
    then show ?thesis using assms(1,3) by (simp add: step_def)
  next
    case k_home
    then have "step t key s = line_start t s" by (auto simp: step_def key_codes)
    then show ?thesis using assms(3) line_start_in_bounds[OF assms(1)]
      by (auto simp: line_start_def)
  next
    case k_end
    then have "step t key s = line_end t s" by (auto simp: step_def key_codes)
    moreover have "line_end t s \<noteq> Break s'" by (auto simp: line_end_def Let_def split: option.splits)
    ultimately show ?thesis using assms(3) line_end_in_bounds[OF assms(1)] by auto
  next
    case k_up
    then have "step t key s = go_on s (move_cursor t (- 1) 0 (ed s))"
      by (simp add: step_def key_codes)
    then show ?thesis using assms(3) g mv by metis
  next
    case k_down
    then have "step t key s = go_on s (move_cursor t 1 0 (ed s))"
      by (simp add: step_def key_codes)
    then show ?thesis using assms(3) g mv by metis
  next
    case k_left
    then have "step t key s = key_left t s"
      by (simp add: step_def key_codes)
    moreover have "key_left t s \<noteq> Break s'"
      by (auto simp: key_left_def go_on_def Let_def split: option.splits)
    ultimately show ?thesis using assms(3) key_left_in_bounds[OF assms(1)] by auto
  next
    case k_right
    then have "step t key s = key_right t s"
      by (simp add: step_def key_codes)
    moreover have "key_right t s \<noteq> Break s'"
      by (auto simp: key_right_def go_on_def Let_def split: option.splits)
    ultimately show ?thesis using assms(3) key_right_in_bounds[OF assms(1)] by auto
  next
    case k_ppage
    then have "step t key s = go_on s (move_cursor t (- fst (get_dimensions t)) 0 (ed s))"
      by (simp add: step_def key_codes)
    then show ?thesis using assms(3) g mv by metis
  next
    case k_npage
    then have "step t key s = go_on s (move_cursor t (fst (get_dimensions t)) 0 (ed s))"
      by (simp add: step_def key_codes)
    then show ?thesis using assms(3) g mv by metis
  next
    case k_enter
    then have "step t key s = go_on s (insert_newline t (ed s))"
      by (auto simp: step_def key_codes)
    then show ?thesis using assms(3) g insert_newline_in_bounds[OF assms(1)] by metis
  next
    case k_bs
    then have "step t key s = go_on s (backspace t (ed s))"
      by (auto simp: step_def key_codes)
    then show ?thesis using assms(3) g backspace_in_bounds[OF assms(1)] by metis
  next
    case k_del
    then have "step t key s = go_on s (delete_char (ed s))"
      by (auto simp: step_def key_codes)
    then show ?thesis using assms(3) g delete_char_in_bounds[OF assms(1)] by metis
  next
    case k_tab
    then have "step t key s = go_on s (insert_char t ''    '' (ed s))"
      by (auto simp: step_def key_codes)
    moreover have "''    '' \<noteq> []" by simp
    ultimately show ?thesis using assms(3) g insert_char_in_bounds[OF assms(1)] by metis
  next
    case k_char
    then have "step t key s = go_on s (insert_char t [char_of key] (ed s))"
      by (auto simp: step_def key_codes)
    moreover have "[char_of key] \<noteq> []" by simp
    ultimately show ?thesis using assms(3) g insert_char_in_bounds[OF assms(1)] by metis
  next
    case k_other
    then have "step t key s = Continue s" by (auto simp: step_def)
    then show ?thesis using assms(1,3) by simp
  qed
qed


lemma load_file_in_bounds:
  "cursor_y e = 0 \<Longrightarrow> cursor_x e = 0 \<Longrightarrow> cursor_in_bounds (snd (load_file fname w e))"
  by (simp add: load_file_def cursor_in_bounds_def Let_def split: option.splits)

lemma init_in_bounds: "cursor_in_bounds (init fname w)"
proof (cases "truthy fname")
  case True
  then show ?thesis unfolding init_def Let_def by (simp add: load_file_in_bounds)
next
  case False
  then show ?thesis by (simp add: init_def cursor_in_bounds_def)
qed

text \<open>
  Paste keeps a line in the buffer and the row on a line; it is the column that it
  leaves where it was, whatever the length of the pasted line.
\<close>

lemma paste_line_row:
  assumes "cursor_in_bounds (ed s)" and "paste_line s = Continue s'"
  shows "lines (ed s') \<noteq> [] \<and> 0 \<le> cursor_y (ed s')
         \<and> cursor_y (ed s') < int (length (lines (ed s'))) \<and> 0 \<le> cursor_x (ed s')"
  using assms
  by (auto simp: paste_line_def Let_def cursor_in_bounds_def py_insert_def split: if_splits)

subsection \<open>Inserting text\<close>

text \<open>
  With the cursor inside the buffer, \<open>insert_char\<close> splices the text into the line at
  the column and sets the modified flag; the column advances by one in \<open>src/atomo.py\<close>
  and by the length of the text in \<open>src/atomo_commentato.py\<close>.
\<close>

lemma modified_adjust_scroll: "modified (adjust_scroll t e) = modified e"
  by (simp add: adjust_scroll_def Let_def split: prod.splits)

lemma insert_char_splice:
  assumes "cursor_in_bounds e"
  shows "\<exists>e'. insert_char t ch e = Some e'
           \<and> lines e' = (lines e)[nat (cursor_y e) :=
                 take (nat (cursor_x e)) (lines e ! nat (cursor_y e)) @ ch
                 @ drop (nat (cursor_x e)) (lines e ! nat (cursor_y e))]
           \<and> modified e' \<and> cursor_y e' = cursor_y e \<and> cursor_x e' = cursor_x e + 1"
  using cursor_in_boundsD[OF assms]
  by (simp add: insert_char_def cursor_in_bounds_index[OF assms] Let_def slice_to_def
      slice_from_def py_clip_nonneg lines_adjust_scroll cursor_adjust_scroll
      modified_adjust_scroll)

lemma insert_char_commentato_splice:
  assumes "cursor_in_bounds e"
  shows "\<exists>e'. insert_char_commentato t ch e = Some e'
           \<and> lines e' = (lines e)[nat (cursor_y e) :=
                 take (nat (cursor_x e)) (lines e ! nat (cursor_y e)) @ ch
                 @ drop (nat (cursor_x e)) (lines e ! nat (cursor_y e))]
           \<and> modified e' \<and> cursor_y e' = cursor_y e
           \<and> cursor_x e' = cursor_x e + int (length ch)"
  using cursor_in_boundsD[OF assms]
  by (simp add: insert_char_commentato_def cursor_in_bounds_index[OF assms] Let_def slice_to_def
      slice_from_def py_clip_nonneg lines_adjust_scroll cursor_adjust_scroll
      modified_adjust_scroll)

subsection \<open>The methods that clear the message\<close>

lemma message_adjust_scroll: "message (adjust_scroll t e) = message e"
  by (simp add: adjust_scroll_def Let_def split: prod.splits)

lemma move_cursor_clears_message: "move_cursor t dy dx e = Some e' \<Longrightarrow> message e' = []"
  by (auto simp: move_cursor_def Let_def message_adjust_scroll split: option.splits)

lemma insert_char_clears_message: "insert_char t ch e = Some e' \<Longrightarrow> message e' = []"
  by (auto simp: insert_char_def Let_def message_adjust_scroll split: option.splits)

lemma insert_newline_clears_message: "insert_newline t e = Some e' \<Longrightarrow> message e' = []"
  by (auto simp: insert_newline_def Let_def message_adjust_scroll split: option.splits)

lemma backspace_clears_message: "backspace t e = Some e' \<Longrightarrow> message e' = []"
  by (auto simp: backspace_def Let_def message_adjust_scroll split: option.splits if_splits)

lemma delete_char_clears_message: "delete_char e = Some e' \<Longrightarrow> message e' = []"
  by (auto simp: delete_char_def Let_def split: option.splits if_splits)

subsection \<open>What the code does against the specification\<close>

lemmas eval_defs = step_def go_on_def insert_char_def insert_newline_def move_cursor_def
  cut_line_def paste_line_def line_start_def line_end_def adjust_scroll_def get_dimensions_def
  py_index_def py_clip_def py_insert_def slice_to_def slice_from_def Let_def
  KEY_UP_def KEY_DOWN_def KEY_LEFT_def KEY_RIGHT_def KEY_HOME_def KEY_END_def KEY_PPAGE_def
  KEY_NPAGE_def KEY_ENTER_def KEY_BACKSPACE_def KEY_DC_def
  start_def init_def screen_24x80_def empty_disk_def


text \<open>
  Claim C2, at the input where the code departs from it. Tab on the empty buffer puts
  four spaces into the line and sets the modified flag, and the column advances by one,
  not by four: \<open>insert_char\<close> of \<open>src/atomo.py\<close> adds 1 whatever the length of the text.
  The same method of \<open>src/atomo_commentato.py\<close> adds the length, and ends at column 4.
\<close>

theorem tab_advances_one_column:
  "(\<exists>s. step screen_24x80 9 (start None empty_disk) = Continue s
        \<and> lines (ed s) = [''    ''] \<and> cursor_y (ed s) = 0 \<and> cursor_x (ed s) = 1
        \<and> modified (ed s))
   \<and> (\<exists>e. insert_char_commentato screen_24x80 ''    '' (ed (start None empty_disk)) = Some e
        \<and> lines e = [''    ''] \<and> cursor_y e = 0 \<and> cursor_x e = 4 \<and> modified e)"
  by (simp add: eval_defs insert_char_commentato_def)

lemma typed_chars:
  "char_of (97::int) = CHR ''a''" "char_of (98::int) = CHR ''b''" "char_of (99::int) = CHR ''c''"
  by (simp_all add: char_of_def)

text \<open>
  Claim C1, at the input where the code departs from it. From the empty buffer: type
  \<open>a\<close>, Enter, \<open>b\<close>, \<open>c\<close>, Up, cut the line (Ctrl+K), go to the end of the line (Ctrl+E),
  paste (Ctrl+U). The pasted line \<open>a\<close> is now the cursor's line, and the column is still
  2: past the end of a line of length 1.
\<close>

theorem paste_leaves_cursor_past_line_end:
  "\<exists>s. run [(screen_24x80, 97), (screen_24x80, 10), (screen_24x80, 98), (screen_24x80, 99),
            (screen_24x80, KEY_UP), (screen_24x80, 11), (screen_24x80, 5), (screen_24x80, 21)]
           (start None empty_disk) = Continue s
       \<and> lines (ed s) = [''a'', ''bc''] \<and> cursor_y (ed s) = 0 \<and> cursor_x (ed s) = 2
       \<and> \<not> cursor_in_bounds (ed s)"
  by (simp add: eval_defs cursor_in_bounds_def typed_chars)

text \<open>
  Claim C4, at the input where the code departs from it. After Ctrl+K has set the
  message \<open>Cut line\<close>, Ctrl+A leaves it displayed; and in every state Ctrl+A and Home
  leave whatever message there is.
\<close>

theorem line_start_keeps_message:
  "(\<exists>s. run [(screen_24x80, 11), (screen_24x80, 1)] (start None empty_disk) = Continue s
        \<and> message (ed s) = ''Cut line'')
   \<and> (\<exists>s'. step t 1 s = Continue s' \<and> message (ed s') = message (ed s))
   \<and> (\<exists>s'. step t KEY_HOME s = Continue s' \<and> message (ed s') = message (ed s))"
  by (simp add: eval_defs)

end
